theory Spec2Isabelle
  imports Complex_Main "HOL-Library.Word" "HOL-Library.AList"
begin

unbundle bit_operations_syntax

chapter \<open>The model\<close>

section \<open>Common ground: bytes and Go run-time panics\<close>

type_synonym byte = "8 word"

text \<open>
  A Go function that indexes a slice out of range, divides by zero or reads through a nil
  pointer does not return: the run time panics. The models of such functions return \<open>go_panic + 'a\<close>, with \<open>Inl\<close> for
  the panic.
\<close>

datatype go_panic = IndexOutOfRange | DivisionByZero | NilDereference

section \<open>Chunk store abstraction (swarm/chunk/chunk.go)\<close>

subsection \<open>Proximity\<close>

definition MaxPO :: nat where
  "MaxPO = 16"

text \<open>
  The inner loop of \<open>Proximity\<close>: \<open>for j := 0; j < m; j++\<close>, returning the first \<open>j\<close>
  whose bit \<open>7 - j\<close> of \<open>oxo\<close> is set, \<open>None\<close> when the loop runs to its end.
\<close>

function bit_loop :: "byte \<Rightarrow> nat \<Rightarrow> nat \<Rightarrow> nat option" where
  "bit_loop oxo m j =
     (if j < m
      then (if (drop_bit (7 - j) oxo) AND 1 \<noteq> 0 then Some j else bit_loop oxo m (Suc j))
      else None)"
  by pat_completeness auto
termination
  by (relation "measure (\<lambda>(oxo, m, j). m - j)") auto

declare bit_loop.simps [simp del]

text \<open>
  The outer loop, \<open>for i := 0; i < b; i++\<close>. \<open>b\<close> never exceeds \<open>len(one)\<close>, but
  \<open>other[i]\<close> is read unchecked: a shorter \<open>other\<close> makes the run time panic.
\<close>

function byte_loop :: "byte list \<Rightarrow> byte list \<Rightarrow> nat \<Rightarrow> nat \<Rightarrow> go_panic + nat" where
  "byte_loop one other b i =
     (if i < b
      then (if i < length one \<and> i < length other
            then (case bit_loop ((one ! i) XOR (other ! i)) 8 0 of
                    Some j \<Rightarrow> Inr (i * 8 + j)
                  | None \<Rightarrow> byte_loop one other b (Suc i))
            else Inl IndexOutOfRange)
      else Inr MaxPO)"
  by pat_completeness auto
termination
  by (relation "measure (\<lambda>(one, other, b, i). b - i)") auto

declare byte_loop.simps [simp del]

definition Proximity :: "byte list \<Rightarrow> byte list \<Rightarrow> go_panic + nat" where
  "Proximity one other =
     (let b = (MaxPO - 1) div 8 + 1;
          b = (if b > length one then length one else b)
      in byte_loop one other b 0)"

text \<open>
  The address \<open>x\<close> with the most significant bit of its byte 0 flipped (the input of the
  third part of the symmetry property; not a function of the source).
\<close>

definition flip_top_bit :: "byte list \<Rightarrow> byte list" where
  "flip_top_bit x = x[0 := (x ! 0) XOR 0x80]"

subsection \<open>ValidatorStore\<close>

type_synonym Address = "byte list"

record chunk =
  addr :: Address
  sdata :: "byte list"

datatype ModePut = ModePutRequest | ModePutSync | ModePutUpload

datatype chunk_error = ErrChunkNotFound | ErrChunkInvalid | ErrOther string

text \<open>
  \<open>Store\<close> and \<open>Validator\<close> are interfaces. Of the wrapped store only \<open>Put\<close> matters here:
  it is a function of the mode, the chunk and the store's state \<open>'s\<close>, returning the error
  (\<open>None\<close> for Go's \<open>nil\<close>) and the new state. A validator is its \<open>Validate\<close> method.
\<close>

type_synonym 's Store_Put = "ModePut \<Rightarrow> chunk \<Rightarrow> 's \<Rightarrow> chunk_error option \<times> 's"

type_synonym Validator = "chunk \<Rightarrow> bool"

record 's ValidatorStore =
  Store :: "'s Store_Put"
  validators :: "Validator list"

definition NewValidatorStore :: "'s Store_Put \<Rightarrow> Validator list \<Rightarrow> 's ValidatorStore" where
  "NewValidatorStore store vs = \<lparr>Store = store, validators = vs\<rparr>"

text \<open>\<open>for _, v := range s.validators\<close>: the first validator that accepts ends the loop.\<close>

fun validators_loop ::
  "'s Store_Put \<Rightarrow> Validator list \<Rightarrow> ModePut \<Rightarrow> chunk \<Rightarrow> 's \<Rightarrow> chunk_error option \<times> 's" where
  "validators_loop put [] mode ch s = (Some ErrChunkInvalid, s)"
| "validators_loop put (v # vs) mode ch s =
     (if v ch then put mode ch s else validators_loop put vs mode ch s)"

definition Put :: "'s ValidatorStore \<Rightarrow> ModePut \<Rightarrow> chunk \<Rightarrow> 's \<Rightarrow> chunk_error option \<times> 's" where
  "Put s mode ch st = validators_loop (Store s) (validators s) mode ch st"

text \<open>
  A store to run \<open>Put\<close> on: the chunks put so far, newest first. It accepts every chunk.
\<close>

definition mem_put :: "(chunk list) Store_Put" where
  "mem_put mode ch st = (None, ch # st)"

section \<open>Legacy mining engine (pow/ezp/pow.go)\<close>

text \<open>
  \<open>binary.PutUvarint\<close> of Go's standard library (package \<open>encoding/binary\<close>), as its
  source reads:
  \<^verbatim>\<open>
  func PutUvarint(buf []byte, x uint64) int {
      i := 0
      for x >= 0x80 {
          buf[i] = byte(x) | 0x80
          x >>= 7
          i++
      }
      buf[i] = byte(x)
      return i + 1
  }
  \<close>
  Each store into \<open>buf\<close> is bounds-checked by the run time: "If the buffer is too small,
  PutUvarint will panic". The model returns the buffer as written and the count.
\<close>

function PutUvarint_loop :: "byte list \<Rightarrow> nat \<Rightarrow> 64 word \<Rightarrow> go_panic + (byte list \<times> nat)" where
  "PutUvarint_loop buf i x =
     (if x \<ge> 0x80
      then (if i < length buf
            then PutUvarint_loop (buf[i := (ucast x) OR 0x80]) (Suc i) (drop_bit 7 x)
            else Inl IndexOutOfRange)
      else (if i < length buf
            then Inr (buf[i := ucast x], i + 1)
            else Inl IndexOutOfRange))"
  by pat_completeness auto
termination
proof (relation "measure (\<lambda>(buf, i, x). unat x)")
  show "wf (measure (\<lambda>(buf, i, x). unat x))"
    by simp
next
  fix buf :: "byte list" and i :: nat and x :: "64 word"
  assume "0x80 \<le> x"
  then have "128 \<le> unat x"
    by (simp add: word_le_nat_alt)
  then have "unat x div 2 ^ 7 < unat x"
    by simp
  then show "((buf[i := (ucast x) OR 0x80], Suc i, drop_bit 7 x), (buf, i, x))
      \<in> measure (\<lambda>(buf, i, x). unat x)"
    by (simp add: drop_bit_eq_div unat_div)
qed

declare PutUvarint_loop.simps [simp del]

definition PutUvarint :: "byte list \<Rightarrow> 64 word \<Rightarrow> go_panic + (byte list \<times> nat)" where
  "PutUvarint buf x = PutUvarint_loop buf 0 x"

text \<open>
  Modelled from the spec: \<open>ethutil.BigD\<close> and \<open>ethutil.BigPow\<close> are not among the sources.
  The spec reads the digest as an unsigned integer (\<open>uint(Keccak256(...))\<close>, "the
  resulting integer") and the bound as \<open>2^256 / difficulty\<close>: \<open>BigD\<close> reads bytes as a
  big-endian unsigned integer, \<open>BigPow a b\<close> is \<open>a\<close> to the power \<open>b\<close>.
\<close>

definition BigD :: "byte list \<Rightarrow> int" where
  "BigD data = foldl (\<lambda>acc b. acc * 256 + uint b) 0 data"

definition BigPow :: "nat \<Rightarrow> nat \<Rightarrow> int" where
  "BigPow a b = int a ^ b"

text \<open>
  \<open>(*big.Int).Div\<close> of Go's \<open>math/big\<close>: Euclidean division (the remainder is never
  negative), a run-time panic on a zero divisor.
\<close>

definition big_Div :: "int \<Rightarrow> int \<Rightarrow> go_panic + int" where
  "big_Div x y =
     (if y = 0 then Inl DivisionByZero
      else if y < 0 then Inr (- (x div (- y)))
      else Inr (x div y))"

text \<open>
  \<open>verify\<close>. The Keccak-256 function of package \<open>crypto/sha3\<close> is a parameter: \<open>keccak256\<close>
  maps the bytes written to the digest \<open>sha.Sum(nil)\<close>.
\<close>

definition verify :: "(byte list \<Rightarrow> byte list) \<Rightarrow> byte list \<Rightarrow> int \<Rightarrow> 64 word \<Rightarrow> go_panic + bool" where
  "verify keccak256 hash diff nonce =
     (let nonce_buf = replicate 8 (0::byte) in
      case PutUvarint nonce_buf nonce of
        Inl p \<Rightarrow> Inl p
      | Inr (nonce_buf, n) \<Rightarrow>
          (let d = hash @ nonce_buf in
           case big_Div (BigPow 2 256) diff of
             Inl p \<Rightarrow> Inl p
           | Inr verification \<Rightarrow>
               (let res = BigD (keccak256 d) in Inr (res \<le> verification))))"

section \<open>Encrypted filter engine (package whisper05: Filter)\<close>



type_synonym common_Hash = "byte list"












text \<open>
  Sample inputs to run \<open>MatchMessage\<close> on. The bodies of the three helpers are not among
  the sources; the sample ones take a key as valid when it is there with non-zero
  coordinates, a message as asymmetrically encrypted when it has a recipient, and as
  symmetrically encrypted when its topic-key-hash is not the zero hash.
\<close>

definition zero_hash :: common_Hash where
  "zero_hash = replicate 32 0"





section \<open>Storage wire protocol (package network: bzz)\<close>

definition ProtocolMaxMsgSize :: nat where
  "ProtocolMaxMsgSize = 10 * 1024 * 1024"

text \<open>A \<open>p2p.Msg\<close> as \<open>ReadMsg\<close> hands it over: code, declared size, payload.\<close>

record p2p_Msg =
  Code :: "64 word"
  Size :: "32 word"
  Payload :: "byte list"

type_synonym Key = "byte list"

text \<open>
  Modelled from the spec: the sync state is declared in a file that is not among the
  sources. The spec gives it as "(database-sync-counter, start-key, stop-key, session-at,
  synced-flag)"; \<open>sync\<close> reads and writes \<open>Start\<close>, \<open>Stop\<close>, \<open>SessionAt\<close> and \<open>Synced\<close>.
\<close>

record syncState =
  DbCounter :: "64 word"
  Start :: Key
  Stop :: Key
  SessionAt :: "64 word"
  Synced :: bool

text \<open>
  The bodies of the messages, as far as \<open>handle\<close> reads them; what it only passes on is
  an opaque byte string. The message types are declared in a file that is not among the
  sources.
\<close>

record storeRequestMsgData =
  SData :: "byte list"
  store_rest :: "byte list"

record retrieveRequestMsgData =
  retrieve_Key :: "Key option"
  retrieve_rest :: "byte list"

type_synonym peersMsgData = "byte list"

type_synonym unsyncedKeysMsgData = "byte list"

type_synonym deliveryRequestMsgData = "byte list"

record syncRequestMsgData =
  SyncState :: "syncState option"

record paymentMsgData =
  Units :: nat
  Promise :: "byte list"

text \<open>The errors \<open>handle\<close> and \<open>sync\<close> return, one constructor per error of the source.\<close>

datatype bzz_error =
    ReadError string
  | MessageTooLong nat nat
  | ExtraStatusMessage
  | DecodeError string
  | DataTooShort nat
  | KeyIsNil
  | HandlerError string
  | InvalidMessageCode "64 word"
  | SyncOnlyOnce

text \<open>
  What a session does to its collaborators (the storage handler, the hive, the swap
  sub-session, the metrics counters, the message itself), in the order it does it.
\<close>

datatype bzz_event =
    CounterInc string
  | HandleStoreRequestMsg storeRequestMsgData
  | HandleRetrieveRequestMsg retrieveRequestMsgData
  | hive_peers retrieveRequestMsgData
  | HandlePeersMsg peersMsgData
  | HandleUnsyncedKeysMsg unsyncedKeysMsgData
  | HandleDeliveryRequestMsg deliveryRequestMsgData
  | swap_Receive nat "byte list"
  | msg_Discard
  | Sleep
  | hive_removePeer
  | syncer_stop
  | swap_Stop

text \<open>
  The session state that \<open>handle\<close> and \<open>sync\<close> read and write. \<open>'y\<close> is the type of the
  syncer sub-session, \<open>None\<close> for a nil pointer.
\<close>

record 'y bzz =
  remoteAddr :: Key
  lastActive :: nat
  swapEnabled :: bool
  swap_present :: bool
  syncEnabled :: bool
  syncer :: "'y option"

text \<open>
  What the source uses and does not define: the message codes (constants), the decoders of
  the message bodies (\<open>msg.Decode\<close>, which may fail), \<open>isLookup\<close>, the errors the storage
  handler returns, the database counter, the key range of the routing table,
  \<open>storage.IsZeroKey\<close> and \<open>newSyncer\<close>, which returns a syncer pointer and an error as
  Go functions do.
\<close>

record 'y bzz_env =
  statusMsg :: "64 word"
  storeRequestMsg :: "64 word"
  retrieveRequestMsg :: "64 word"
  peersMsg :: "64 word"
  syncRequestMsg :: "64 word"
  unsyncedKeysMsg :: "64 word"
  deliveryRequestMsg :: "64 word"
  paymentMsg :: "64 word"
  Decode_storeRequest :: "p2p_Msg \<Rightarrow> string + storeRequestMsgData"
  Decode_retrieveRequest :: "p2p_Msg \<Rightarrow> string + retrieveRequestMsgData"
  Decode_peers :: "p2p_Msg \<Rightarrow> string + peersMsgData"
  Decode_syncRequest :: "p2p_Msg \<Rightarrow> string + syncRequestMsgData"
  Decode_unsyncedKeys :: "p2p_Msg \<Rightarrow> string + unsyncedKeysMsgData"
  Decode_deliveryRequest :: "p2p_Msg \<Rightarrow> string + deliveryRequestMsgData"
  Decode_payment :: "p2p_Msg \<Rightarrow> string + paymentMsgData"
  isLookup :: "retrieveRequestMsgData \<Rightarrow> bool"
  UnsyncedKeys_result :: "unsyncedKeysMsgData \<Rightarrow> string option"
  DeliveryRequest_result :: "deliveryRequestMsgData \<Rightarrow> string option"
  dbAccess_counter :: "64 word"
  KeyRange :: "Key \<Rightarrow> Key \<times> Key"
  IsZeroKey :: "Key \<Rightarrow> bool"
  newSyncer :: "Key \<Rightarrow> syncState \<Rightarrow> bool \<Rightarrow> 'y option \<times> string option"

subsection \<open>sync\<close>

text \<open>
  The sync state that \<open>sync\<close> hands to \<open>newSyncer\<close>, and the session as it is then: an
  explicitly received nil state disables synchronisation and is replaced by an empty state
  that is already synced.
\<close>

definition sync_prepare :: "'y bzz_env \<Rightarrow> syncState option \<Rightarrow> 'y bzz \<Rightarrow> 'y bzz \<times> syncState" where
  "sync_prepare env state b =
     (let cnt = dbAccess_counter env;
          remoteaddr = remoteAddr b;
          (start, stop) = KeyRange env remoteaddr
      in case state of
           None \<Rightarrow>
             (b\<lparr>syncEnabled := False\<rparr>,
              \<lparr>DbCounter = 0, Start = [], Stop = [], SessionAt = 0, Synced = True\<rparr>)
         | Some st \<Rightarrow>
             (let st = st\<lparr>SessionAt := cnt\<rparr>;
                  st = (if IsZeroKey env (Stop st) \<and> Synced st
                        then st\<lparr>Start := start, Stop := stop\<rparr> else st)
              in (b, st)))"

text \<open>
  \<open>sync\<close> returns its error and the session. \<open>bzz.syncer, err = newSyncer(...)\<close> assigns
  the pointer whatever the error is, and both ways out of the function after it return
  nil. The last argument of \<open>newSyncer\<close> is a closure that reads \<open>bzz.syncEnabled\<close>.
\<close>

definition sync :: "'y bzz_env \<Rightarrow> syncState option \<Rightarrow> 'y bzz \<Rightarrow> bzz_error option \<times> 'y bzz" where
  "sync env state b =
     (if syncer b \<noteq> None then (Some SyncOnlyOnce, b)
      else
        (let (b, state) = sync_prepare env state b;
             (sy, err) = newSyncer env (remoteAddr b) state (syncEnabled b);
             b = b\<lparr>syncer := sy\<rparr>
         in if err \<noteq> None then (None, b) else (None, b)))"

subsection \<open>handle\<close>

text \<open>
  One cycle of the session's loop, on what \<open>ReadMsg\<close> returned (a message or an error) at
  time \<open>now\<close>. It returns the error, the events in order, and the session. The deferred
  \<open>msg.Discard()\<close> runs on every way out after the size check: \<open>finish\<close> appends it.
\<close>

definition finish :: "bzz_error option \<Rightarrow> bzz_event list \<Rightarrow> 'y bzz \<Rightarrow> bzz_error option \<times> bzz_event list \<times> 'y bzz" where
  "finish err evs b = (err, evs @ [msg_Discard], b)"

definition handle ::
  "'y bzz_env \<Rightarrow> nat \<Rightarrow> string + p2p_Msg \<Rightarrow> 'y bzz \<Rightarrow> bzz_error option \<times> bzz_event list \<times> 'y bzz" where
  "handle env now rd b =
     (case rd of
        Inl err \<Rightarrow> (Some (ReadError err), [], b)
      | Inr msg \<Rightarrow>
          if unat (Size msg) > ProtocolMaxMsgSize
          then (Some (MessageTooLong (unat (Size msg)) ProtocolMaxMsgSize), [], b)
          else if Code msg = statusMsg env then
            finish (Some ExtraStatusMessage) [] b
          else if Code msg = storeRequestMsg env then
            (case Decode_storeRequest env msg of
               Inl e \<Rightarrow> finish (Some (DecodeError e)) [CounterInc ''storerequest''] b
             | Inr req \<Rightarrow>
                 if length (SData req) < 9
                 then finish (Some (DataTooShort (length (SData req)))) [CounterInc ''storerequest''] b
                 else finish None [CounterInc ''storerequest'', HandleStoreRequestMsg req]
                        (b\<lparr>lastActive := now\<rparr>))
          else if Code msg = retrieveRequestMsg env then
            (case Decode_retrieveRequest env msg of
               Inl e \<Rightarrow> finish (Some (DecodeError e)) [CounterInc ''retrieverequest''] b
             | Inr req \<Rightarrow>
                 if isLookup env req
                 then finish None [CounterInc ''retrieverequest'', hive_peers req] b
                 else if retrieve_Key req = None
                 then finish (Some KeyIsNil) [CounterInc ''retrieverequest''] b
                 else finish None
                        [CounterInc ''retrieverequest'', HandleRetrieveRequestMsg req, hive_peers req] b)
          else if Code msg = peersMsg env then
            (case Decode_peers env msg of
               Inl e \<Rightarrow> finish (Some (DecodeError e)) [CounterInc ''peers''] b
             | Inr req \<Rightarrow> finish None [CounterInc ''peers'', HandlePeersMsg req] b)
          else if Code msg = syncRequestMsg env then
            (case Decode_syncRequest env msg of
               Inl e \<Rightarrow> finish (Some (DecodeError e)) [CounterInc ''syncrequest''] b
             | Inr req \<Rightarrow>
                 (let (sync_err, b) = sync env (SyncState req) (b\<lparr>lastActive := now\<rparr>)
                  in finish None [CounterInc ''syncrequest''] b))
          else if Code msg = unsyncedKeysMsg env then
            (case Decode_unsyncedKeys env msg of
               Inl e \<Rightarrow> finish (Some (DecodeError e)) [CounterInc ''unsyncedkeys''] b
             | Inr req \<Rightarrow>
                 (case UnsyncedKeys_result env req of
                    Some e \<Rightarrow> finish (Some (HandlerError e))
                                [CounterInc ''unsyncedkeys'', HandleUnsyncedKeysMsg req]
                                (b\<lparr>lastActive := now\<rparr>)
                  | None \<Rightarrow> finish None
                                [CounterInc ''unsyncedkeys'', HandleUnsyncedKeysMsg req]
                                (b\<lparr>lastActive := now\<rparr>)))
          else if Code msg = deliveryRequestMsg env then
            (case Decode_deliveryRequest env msg of
               Inl e \<Rightarrow> finish (Some (DecodeError e)) [CounterInc ''deliverrequest''] b
             | Inr req \<Rightarrow>
                 (case DeliveryRequest_result env req of
                    Some e \<Rightarrow> finish (Some (HandlerError e))
                                [CounterInc ''deliverrequest'', HandleDeliveryRequestMsg req]
                                (b\<lparr>lastActive := now\<rparr>)
                  | None \<Rightarrow> finish None
                                [CounterInc ''deliverrequest'', HandleDeliveryRequestMsg req]
                                (b\<lparr>lastActive := now\<rparr>)))
          else if Code msg = paymentMsg env then
            (if swapEnabled b
             then (case Decode_payment env msg of
                     Inl e \<Rightarrow> finish (Some (DecodeError e)) [CounterInc ''payment''] b
                   | Inr req \<Rightarrow>
                       finish None [CounterInc ''payment'', swap_Receive (Units req) (Promise req)] b)
             else finish None [CounterInc ''payment''] b)
          else finish (Some (InvalidMessageCode (Code msg))) [CounterInc ''invalid''] b)"

subsection \<open>The session loop of run\<close>

text \<open>
  The loop of \<open>run\<close> after the handshake, on the moments of the session in order: either
  the hive blocks reading (\<open>BlockRead\<close>: the loop sleeps and goes on), or \<open>ReadMsg\<close> returns
  at a time. The loop ends at the first error of \<open>handle\<close>; the deferred function of \<open>run\<close>
  then deregisters the peer and stops the syncer and the swap sub-session. Where the
  moments run out the session is still open: the result has no error and no cleanup.
  The fourth component is the moments the loop did not get to.
\<close>

datatype tick = BlockRead | Incoming nat "string + p2p_Msg"

definition cleanup :: "'y bzz \<Rightarrow> bzz_event list" where
  "cleanup b =
     [hive_removePeer] @ (if syncer b \<noteq> None then [syncer_stop] else [])
       @ (if swap_present b then [swap_Stop] else [])"

fun run_loop ::
  "'y bzz_env \<Rightarrow> tick list \<Rightarrow> 'y bzz \<Rightarrow> bzz_error option \<times> bzz_event list \<times> 'y bzz \<times> tick list" where
  "run_loop env [] b = (None, [], b, [])"
| "run_loop env (BlockRead # ts) b =
     (case run_loop env ts b of (err, evs, b', rest) \<Rightarrow> (err, Sleep # evs, b', rest))"
| "run_loop env (Incoming now rd # ts) b =
     (case handle env now rd b of
        (Some err, evs, b') \<Rightarrow> (Some err, evs @ cleanup b', b', ts)
      | (None, evs, b') \<Rightarrow>
          (case run_loop env ts b' of (err, evs', b'', rest) \<Rightarrow> (err, evs @ evs', b'', rest)))"

text \<open>The events that hand a message to a handler: storage, hive, syncer or swap.\<close>

fun dispatches :: "bzz_event \<Rightarrow> bool" where
  "dispatches (HandleStoreRequestMsg r) = True"
| "dispatches (HandleRetrieveRequestMsg r) = True"
| "dispatches (hive_peers r) = True"
| "dispatches (HandlePeersMsg r) = True"
| "dispatches (HandleUnsyncedKeysMsg r) = True"
| "dispatches (HandleDeliveryRequestMsg r) = True"
| "dispatches (swap_Receive u p) = True"
| "dispatches e = False"

text \<open>An environment and a session to run \<open>handle\<close> and \<open>sync\<close> on.\<close>

definition sample_env :: "(nat option \<times> string option) \<Rightarrow> nat bzz_env" where
  "sample_env made =
     \<lparr>statusMsg = 0, storeRequestMsg = 1, retrieveRequestMsg = 2, peersMsg = 3,
      syncRequestMsg = 4, unsyncedKeysMsg = 5, deliveryRequestMsg = 6, paymentMsg = 7,
      Decode_storeRequest = (\<lambda>m. Inr \<lparr>SData = Payload m, store_rest = []\<rparr>),
      Decode_retrieveRequest = (\<lambda>m. Inr \<lparr>retrieve_Key = Some (Payload m), retrieve_rest = []\<rparr>),
      Decode_peers = (\<lambda>m. Inr (Payload m)),
      Decode_syncRequest = (\<lambda>m. Inr \<lparr>SyncState = None\<rparr>),
      Decode_unsyncedKeys = (\<lambda>m. Inr (Payload m)),
      Decode_deliveryRequest = (\<lambda>m. Inr (Payload m)),
      Decode_payment = (\<lambda>m. Inr \<lparr>Units = length (Payload m), Promise = Payload m\<rparr>),
      isLookup = (\<lambda>r. False),
      UnsyncedKeys_result = (\<lambda>r. None),
      DeliveryRequest_result = (\<lambda>r. None),
      dbAccess_counter = 42,
      KeyRange = (\<lambda>k. (k, k)),
      IsZeroKey = (\<lambda>k. k = []),
      newSyncer = (\<lambda>k st en. made)\<rparr>"

definition sample_bzz :: "nat option \<Rightarrow> nat bzz" where
  "sample_bzz sy =
     \<lparr>remoteAddr = [1, 2, 3], lastActive = 0, swapEnabled = True, swap_present = True,
      syncEnabled = True, syncer = sy\<rparr>"

definition sample_msg :: "64 word \<Rightarrow> 32 word \<Rightarrow> p2p_Msg" where
  "sample_msg c n = \<lparr>Code = c, Size = n, Payload = replicate 9 1\<rparr>"

section \<open>Structured-data signing endpoint (package core: SignerAPI)\<close>

text \<open>
  \<open>TypedData\<close> is \<open>ethereum.TypedData\<close>, of which the source reads the field \<open>Hash\<close>, a
  pointer to a hash.
\<close>

record TypedData =
  Hash :: "common_Hash option"

text \<open>
  \<open>SignStructuredData\<close> prints two lines and returns \<open>common.Hex2Bytes("0xdeadbeef")\<close> and a
  nil error. The model returns the lines printed and the two results. \<open>Hex2Bytes\<close> and the
  formatting of \<open>fmt.Println\<close> are not in the sources: they are parameters, and so is the
  type \<open>'a\<close> of the address.
\<close>

definition SignStructuredData ::
  "(string \<Rightarrow> byte list) \<Rightarrow> (TypedData \<Rightarrow> string) \<Rightarrow> (common_Hash option \<Rightarrow> string) \<Rightarrow>
   'a \<Rightarrow> TypedData \<Rightarrow> string list \<times> (byte list \<times> string option)" where
  "SignStructuredData Hex2Bytes show_data show_hash address data =
     ([''data '' @ show_data data, ''data.Hash '' @ show_hash (Hash data)],
      (Hex2Bytes ''0xdeadbeef'', None))"

section \<open>State tree synchronizer (driven by core/state/sync\_test.go)\<close>

text \<open>
  The test file drives \<open>NewStateSync\<close>, \<open>Missing\<close> and \<open>Process\<close>; the synchronizer itself
  and the node iterator are not among the sources, so this section models them from the
  spec (sections 3 and 4.7). A store maps the hash of a node to its raw bytes.
\<close>

type_synonym blob = "byte list"

type_synonym node_store = "common_Hash \<rightharpoonup> blob"

text \<open>
  Modelled from the spec: the node format is missing. The spec speaks of a "hash-addressed
  tree" whose received nodes "reveal new child hashes" and are "validated against the
  requested hash": \<open>node_hash\<close> is the hash of a node's bytes, \<open>node_children\<close> the child
  hashes the bytes refer to (none for a leaf or a code entry).
\<close>

record node_codec =
  node_hash :: "blob \<Rightarrow> common_Hash"
  node_children :: "blob \<Rightarrow> common_Hash list"

text \<open>The canonical empty-tree hash, as \<open>testEmptyStateSync\<close> writes it.\<close>

definition emptyRoot :: common_Hash where
  "emptyRoot =
     [0x56, 0xe8, 0x1f, 0x17, 0x1b, 0xcc, 0x55, 0xa6,
      0xff, 0x83, 0x45, 0xe6, 0x92, 0xc0, 0xf8, 0x6e,
      0x5b, 0x48, 0xe0, 0x1b, 0x99, 0x6c, 0xad, 0xc0,
      0x01, 0x62, 0x2f, 0xb5, 0xe3, 0x63, 0xb4, 0x21]"

text \<open>
  Modelled from the spec: the request queue is "the set of tree-node hashes known to be
  missing from a destination store, each tracked with the hash of its parent node for
  index reconstruction". A request holds the parents that refer to the node and, once they
  are supplied, the node's bytes: they are kept here until the sub-tree below the node is
  complete, since the synchronizer never leaves "an incomplete sub-tree durably recorded".
\<close>

record request =
  req_parents :: "common_Hash list"
  req_data :: "blob option"

text \<open>
  Modelled from the spec: the scheduler. \<open>database\<close> is the destination store,
  \<open>ref_index\<close> its parent-reference index (entries parent, child), \<open>requests\<close> the nodes
  asked for and not yet stored (keyed by hash), \<open>queue\<close> the hashes that \<open>Missing\<close> has
  not handed out yet.
\<close>

record StateSync =
  database :: node_store
  ref_index :: "(common_Hash \<times> common_Hash) set"
  requests :: "(common_Hash \<times> request) list"
  queue :: "common_Hash list"

text \<open>
  Modelled from the spec: "NewStateSync(rootHash, destinationStore, originHash) creates a
  scheduler; if the root equals a canonical empty tree hash, the scheduler starts with zero
  pending requests". Otherwise the root is the one pending request; a non-empty origin is
  tracked as its parent (the zero hash is the empty origin).
\<close>

definition NewStateSync :: "common_Hash \<Rightarrow> node_store \<Rightarrow> common_Hash \<Rightarrow> StateSync" where
  "NewStateSync rootHash db origin =
     (if rootHash = emptyRoot
      then \<lparr>database = db, ref_index = {}, requests = [], queue = []\<rparr>
      else \<lparr>database = db, ref_index = {},
            requests = [(rootHash, \<lparr>req_parents = (if origin = zero_hash then [] else [origin]),
                                req_data = None\<rparr>)],
            queue = [rootHash]\<rparr>)"

text \<open>
  Modelled from the spec: "Missing(max) returns up to max currently-known-missing node
  hashes (or all of them if max is 0)". What it returns leaves the queue.
\<close>

definition Missing :: "nat \<Rightarrow> StateSync \<Rightarrow> common_Hash list \<times> StateSync" where
  "Missing limit s =
     (let n = (if limit = 0 then length (queue s) else min limit (length (queue s)))
      in (take n (queue s), s\<lparr>queue := drop n (queue s)\<rparr>))"

text \<open>
  Modelled from the spec: a received node "discovers and enqueues any child hashes not
  already resolved or in flight". A child that the destination already has is resolved:
  only the index entry is recorded. A child in flight gets one more parent. Any other
  child becomes a request and joins the queue.
\<close>

definition schedule :: "common_Hash \<Rightarrow> common_Hash \<Rightarrow> StateSync \<Rightarrow> StateSync" where
  "schedule parent c s =
     (if database s c \<noteq> None
      then s\<lparr>ref_index := insert (parent, c) (ref_index s)\<rparr>
      else (case map_of (requests s) c of
              Some r \<Rightarrow>
                s\<lparr>requests := AList.update c (r\<lparr>req_parents := req_parents r @ [parent]\<rparr>) (requests s)\<rparr>
            | None \<Rightarrow>
                s\<lparr>requests := AList.update c \<lparr>req_parents = [parent], req_data = None\<rparr> (requests s),
                  queue := queue s @ [c]\<rparr>))"

text \<open>
  Modelled from the spec: a node is stored once its sub-tree is complete. \<open>commit\<close> writes
  the node's bytes and one index entry per tracked parent, and removes the request.
\<close>

definition commit :: "common_Hash \<Rightarrow> request \<Rightarrow> blob \<Rightarrow> StateSync \<Rightarrow> StateSync" where
  "commit h r d s =
     s\<lparr>database := (database s)(h \<mapsto> d),
       ref_index := ref_index s \<union> (\<lambda>p. (p, h)) ` set (req_parents r),
       requests := AList.delete h (requests s)\<rparr>"

lemma length_delete_less:
  "map_of al k = Some v \<Longrightarrow> length (AList.delete k al) < length al"
proof -
  assume "map_of al k = Some v"
  then have "(k, v) \<in> set al"
    by (rule map_of_SomeD)
  with length_filter_less [of "(k, v)" al "\<lambda>(k', u). k \<noteq> k'"]
  show ?thesis
    by (simp add: AList.delete_eq)
qed

text \<open>
  Modelled from the spec: storing a node may complete its parents. \<open>cascade\<close> works through
  the hashes to look at: a request whose bytes have arrived and whose children are all in
  the destination is committed, and its parents are looked at next.
\<close>

function cascade :: "node_codec \<Rightarrow> common_Hash list \<Rightarrow> StateSync \<Rightarrow> StateSync" where
  "cascade cd [] s = s"
| "cascade cd (h # hs) s =
     (case map_of (requests s) h of
        None \<Rightarrow> cascade cd hs s
      | Some r \<Rightarrow>
          (case req_data r of
             None \<Rightarrow> cascade cd hs s
           | Some d \<Rightarrow>
               if list_all (\<lambda>c. database s c \<noteq> None) (node_children cd d)
               then cascade cd (req_parents r @ hs) (commit h r d s)
               else cascade cd hs s))"
  by pat_completeness auto
termination
  by (relation "measures [\<lambda>(cd, hs, s). length (requests s), \<lambda>(cd, hs, s). length hs]")
    (auto simp: commit_def length_delete_less)

declare cascade.simps [simp del]

datatype sync_error = NotRequested | HashMismatch

text \<open>
  Modelled from the spec: \<open>Process\<close> "validates each [result] against its requested hash,
  stores it, and, for internal nodes, discovers and enqueues any child hashes". A result
  is invalid when its hash is not awaited (never requested, or supplied already) or is not
  the hash of its bytes.
\<close>

definition process_one :: "node_codec \<Rightarrow> common_Hash \<Rightarrow> blob \<Rightarrow> StateSync \<Rightarrow> sync_error + StateSync" where
  "process_one cd h d s =
     (case map_of (requests s) h of
        None \<Rightarrow> Inl NotRequested
      | Some r \<Rightarrow>
          if req_data r \<noteq> None then Inl NotRequested
          else if node_hash cd d \<noteq> h then Inl HashMismatch
          else
            (let s = s\<lparr>requests := AList.update h (r\<lparr>req_data := Some d\<rparr>) (requests s)\<rparr>;
                 s = fold (schedule h) (node_children cd d) s
             in Inr (cascade cd [h] s)))"

text \<open>
  Modelled from the spec: \<open>Process\<close> "returns the index of the first invalid result on
  failure (fails fast, but already-processed entries in the batch remain committed)".
\<close>

fun Process_loop ::
  "node_codec \<Rightarrow> nat \<Rightarrow> (common_Hash \<times> blob) list \<Rightarrow> StateSync \<Rightarrow> (nat \<times> sync_error) option \<times> StateSync" where
  "Process_loop cd i [] s = (None, s)"
| "Process_loop cd i ((h, d) # results) s =
     (case process_one cd h d s of
        Inl err \<Rightarrow> (Some (i, err), s)
      | Inr s' \<Rightarrow> Process_loop cd (Suc i) results s')"

text \<open>
  Modelled from the spec: "Process(results) accepts a batch of (hash, raw-bytes) pairs in
  any order"; it returns the index and the error of the first invalid result, or nothing.
\<close>

definition Process ::
  "node_codec \<Rightarrow> (common_Hash \<times> blob) list \<Rightarrow> StateSync \<Rightarrow> (nat \<times> sync_error) option \<times> StateSync" where
  "Process cd results s = Process_loop cd 0 results s"

subsection \<open>The drivers of the test file\<close>

text \<open>
  The four test drivers share one loop: ask \<open>Missing\<close> for more hashes, fetch the bytes of
  some of the outstanding hashes from the source store, hand them to \<open>Process\<close>, until
  nothing is outstanding. They differ in the limit passed to \<open>Missing\<close> and in which
  outstanding hashes they answer, in which order: a \<open>strategy\<close> gives both for every
  round of the loop.
\<close>

record strategy =
  batch_limit :: "nat \<Rightarrow> nat"
  deliver :: "nat \<Rightarrow> common_Hash list \<Rightarrow> common_Hash list"

text \<open>
  In every round with outstanding hashes a driver answers at least one of them, each at
  most once.
\<close>

definition valid_strategy :: "strategy \<Rightarrow> bool" where
  "valid_strategy st =
     (\<forall>n pool. pool \<noteq> [] \<longrightarrow>
        deliver st n pool \<noteq> [] \<and> distinct (deliver st n pool) \<and>
        set (deliver st n pool) \<subseteq> set pool)"

text \<open>\<open>srcDb.Get(hash.Bytes())\<close> for every hash of the batch; the test stops if one fails.\<close>

fun fetch :: "node_store \<Rightarrow> common_Hash list \<Rightarrow> (common_Hash \<times> blob) list option" where
  "fetch src [] = Some []"
| "fetch src (h # hs) =
     (case src h of
        None \<Rightarrow> None
      | Some b \<Rightarrow> (case fetch src hs of None \<Rightarrow> None | Some rs \<Rightarrow> Some ((h, b) # rs)))"

datatype outcome = Synced StateSync | FetchFailed | ProcessFailed nat sync_error

text \<open>
  The loop, with the number of rounds it may take (\<open>None\<close> when they run out), the number
  of the round, the scheduler and the outstanding hashes.
\<close>

fun drive ::
  "node_codec \<Rightarrow> node_store \<Rightarrow> strategy \<Rightarrow> nat \<Rightarrow> nat \<Rightarrow> StateSync \<Rightarrow> common_Hash list \<Rightarrow> outcome option" where
  "drive cd src st 0 n s pool = None"
| "drive cd src st (Suc fuel) n s pool =
     (case Missing (batch_limit st n) s of
        (new, s1) \<Rightarrow>
          (let pool1 = pool @ new in
           if pool1 = [] then Some (Synced s1)
           else
             (let batch = deliver st n pool1 in
              case fetch src batch of
                None \<Rightarrow> Some FetchFailed
              | Some results \<Rightarrow>
                  (case Process cd results s1 of
                     (Some (i, err), s2) \<Rightarrow> Some (ProcessFailed i err)
                   | (None, s2) \<Rightarrow>
                       drive cd src st fuel (Suc n) s2 (filter (\<lambda>h. h \<notin> set batch) pool1)))))"

subsection \<open>The offline iteration of a stored tree\<close>

text \<open>
  Modelled from the spec: the "full offline iteration" of the tree stored under a root
  (the node iterator of \<open>checkStateIndex\<close> and \<open>checkStateConsistency\<close>, not among the
  sources). It visits the root and, below every node, the nodes its bytes refer to,
  and reports each visit as (hash, parent, bytes); the parent of the root is the zero
  hash. A node that the store lacks makes the iteration fail (\<open>None\<close>, the iterator's
  panic), and so does a tree deeper than the given bound.
\<close>

fun NodeIterator ::
  "node_codec \<Rightarrow> nat \<Rightarrow> node_store \<Rightarrow> common_Hash \<Rightarrow> common_Hash \<Rightarrow> (common_Hash \<times> common_Hash \<times> blob) list option" where
  "NodeIterator cd 0 st parent h = None"
| "NodeIterator cd (Suc depth) st parent h =
     (case st h of
        None \<Rightarrow> None
      | Some b \<Rightarrow>
          (case those (map (NodeIterator cd depth st h) (node_children cd b)) of
             None \<Rightarrow> None
           | Some subs \<Rightarrow> Some ((h, parent, b) # concat subs)))"

text \<open>
  The index entries that \<open>checkStateIndex\<close> gathers from an iteration: one entry (parent,
  hash) per visit with a non-zero hash and a non-zero parent, and one entry (origin, root)
  when the origin is not the zero hash.
\<close>

definition gathered_index ::
  "(common_Hash \<times> common_Hash \<times> blob) list \<Rightarrow> common_Hash \<Rightarrow> common_Hash \<Rightarrow> (common_Hash \<times> common_Hash) set" where
  "gathered_index visits rootHash origin =
     (\<lambda>(h, p, b). (p, h)) ` {v \<in> set visits. fst v \<noteq> zero_hash \<and> fst (snd v) \<noteq> zero_hash}
       \<union> (if origin \<noteq> zero_hash then {(origin, rootHash)} else {})"

subsection \<open>Source trees\<close>

text \<open>
  A source tree: a finite store of nodes, each stored under the hash of its bytes and none
  under the zero hash or the empty-tree hash, that has the root and every node a stored
  node refers to, and in which the references go down (\<open>rank\<close> decreases from a node to
  the nodes it refers to), as they do when every node holds the hashes of its children.
\<close>

definition source_tree :: "node_codec \<Rightarrow> node_store \<Rightarrow> common_Hash \<Rightarrow> (common_Hash \<Rightarrow> nat) \<Rightarrow> bool" where
  "source_tree cd src rootHash rank =
     (finite (dom src) \<and> src rootHash \<noteq> None \<and> src zero_hash = None \<and> src emptyRoot = None \<and>
      (\<forall>h b. src h = Some b \<longrightarrow>
         node_hash cd b = h \<and>
         (\<forall>c \<in> set (node_children cd b). src c \<noteq> None \<and> rank c < rank h)))"

text \<open>A small source tree and two drivers to run the synchronizer on.\<close>

definition sample_codec :: node_codec where
  "sample_codec = \<lparr>node_hash = (\<lambda>b. [last b]), node_children = (\<lambda>b. map (\<lambda>x. [x]) (butlast b))\<rparr>"

definition sample_src :: node_store where
  "sample_src = [[1] \<mapsto> [2, 3, 1], [2] \<mapsto> [4, 2], [3] \<mapsto> [4, 5, 3], [4] \<mapsto> [4], [5] \<mapsto> [5]]"

definition sample_rank :: "common_Hash \<Rightarrow> nat" where
  "sample_rank h = 10 - unat (hd h)"

definition all_at_once :: strategy where
  "all_at_once = \<lparr>batch_limit = (\<lambda>n. 100), deliver = (\<lambda>n pool. pool)\<rparr>"

definition last_one_first :: strategy where
  "last_one_first = \<lparr>batch_limit = (\<lambda>n. 0), deliver = (\<lambda>n pool. [last pool])\<rparr>"

subsection \<open>What the synchronizer keeps true\<close>

text \<open>
  The nodes a stored node refers to, and the nodes of the tree under a hash: the hash
  itself and, with every node, the nodes it refers to.
\<close>

definition kids :: "node_codec \<Rightarrow> node_store \<Rightarrow> common_Hash \<Rightarrow> common_Hash set" where
  "kids cd src h = (case src h of None \<Rightarrow> {} | Some b \<Rightarrow> set (node_children cd b))"

inductive_set reach :: "(common_Hash \<Rightarrow> common_Hash set) \<Rightarrow> common_Hash \<Rightarrow> common_Hash set"
  for kd :: "common_Hash \<Rightarrow> common_Hash set" and h :: common_Hash where
  start: "h \<in> reach kd h"
| step: "p \<in> reach kd h \<Longrightarrow> c \<in> kd p \<Longrightarrow> c \<in> reach kd h"

text \<open>
  The requests whose bytes have arrived (and wait for their sub-tree), and those whose
  bytes are still awaited.
\<close>

definition delivered :: "StateSync \<Rightarrow> common_Hash set" where
  "delivered s = {h. \<exists>r d. map_of (requests s) h = Some r \<and> req_data r = Some d}"

definition awaited :: "StateSync \<Rightarrow> common_Hash set" where
  "awaited s = {h. \<exists>r. map_of (requests s) h = Some r \<and> req_data r = None}"

text \<open>
  The destination holds nodes of the source only, and with a node all the nodes it refers
  to: no incomplete sub-tree is ever stored.
\<close>

definition store_inv :: "node_store \<Rightarrow> (common_Hash \<Rightarrow> common_Hash set) \<Rightarrow> StateSync \<Rightarrow> bool" where
  "store_inv src kd s =
     ((\<forall>h b. database s h = Some b \<longrightarrow> src h = Some b) \<and>
      (\<forall>h \<in> dom (database s). kd h \<subseteq> dom (database s)))"

text \<open>
  Requests are for nodes of the tree \<open>R\<close> that the destination lacks, one request per
  hash, and the bytes a request holds are the source's.
\<close>

definition request_inv :: "node_store \<Rightarrow> common_Hash set \<Rightarrow> StateSync \<Rightarrow> bool" where
  "request_inv src R s =
     (distinct (map fst (requests s)) \<and> dom (database s) \<subseteq> R \<and>
      (\<forall>h r. map_of (requests s) h = Some r \<longrightarrow>
         database s h = None \<and> h \<in> R \<and> (\<forall>d. req_data r = Some d \<longrightarrow> src h = Some d)))"

text \<open>
  \<open>kp\<close> gives the children of a node that have been scheduled: all of them, but for the
  node being processed. They are stored or requested.
\<close>

definition known_inv :: "(common_Hash \<Rightarrow> common_Hash set) \<Rightarrow> StateSync \<Rightarrow> bool" where
  "known_inv kp s =
     (\<forall>h \<in> delivered s. kp h \<subseteq> dom (database s) \<union> dom (map_of (requests s)))"

text \<open>
  A request whose bytes have arrived still lacks a child, unless it is on the list \<open>wl\<close> of
  hashes to look at.
\<close>

definition waiting_inv :: "(common_Hash \<Rightarrow> common_Hash set) \<Rightarrow> common_Hash list \<Rightarrow> StateSync \<Rightarrow> bool" where
  "waiting_inv kd wl s =
     (\<forall>h \<in> delivered s. h \<in> set wl \<or> \<not> kd h \<subseteq> dom (database s))"

text \<open>
  The parents tracked by a request are the nodes that have arrived and refer to it, and
  the origin for the root.
\<close>

definition parents_inv ::
  "(common_Hash \<Rightarrow> common_Hash set) \<Rightarrow> common_Hash \<Rightarrow> common_Hash \<Rightarrow> StateSync \<Rightarrow> bool" where
  "parents_inv kp rootHash origin s =
     (\<forall>h r. map_of (requests s) h = Some r \<longrightarrow>
        set (req_parents r) =
          {p \<in> delivered s. h \<in> kp p} \<union> (if h = rootHash \<and> origin \<noteq> zero_hash then {origin} else {}))"

text \<open>The awaited hashes are in the queue or outstanding (\<open>pool\<close>), each once.\<close>

definition queue_inv :: "StateSync \<Rightarrow> common_Hash list \<Rightarrow> bool" where
  "queue_inv s pool = (awaited s = set (queue s) \<union> set pool \<and> distinct (queue s @ pool))"

definition root_inv :: "common_Hash \<Rightarrow> StateSync \<Rightarrow> bool" where
  "root_inv rootHash s = (rootHash \<in> dom (database s) \<union> dom (map_of (requests s)))"

text \<open>
  The index has the entry (parent, child) for every stored child of a node that has
  arrived, and the entry (origin, root) once the root is stored.
\<close>

definition index_inv ::
  "(common_Hash \<Rightarrow> common_Hash set) \<Rightarrow> common_Hash \<Rightarrow> common_Hash \<Rightarrow> StateSync \<Rightarrow> bool" where
  "index_inv kp rootHash origin s =
     (ref_index s =
        {(p, c). p \<in> dom (database s) \<union> delivered s \<and> c \<in> kp p \<and> c \<in> dom (database s)}
          \<union> (if origin \<noteq> zero_hash \<and> rootHash \<in> dom (database s) then {(origin, rootHash)} else {}))"

text \<open>\<open>P\<close> is the set of the nodes that have arrived, stored or not yet.\<close>

definition done_inv :: "common_Hash set \<Rightarrow> StateSync \<Rightarrow> bool" where
  "done_inv P s = (dom (database s) \<union> delivered s = P)"

definition sync_inv ::
  "node_store \<Rightarrow> (common_Hash \<Rightarrow> common_Hash set) \<Rightarrow> common_Hash \<Rightarrow> common_Hash \<Rightarrow>
   (common_Hash \<Rightarrow> common_Hash set) \<Rightarrow> common_Hash list \<Rightarrow> common_Hash list \<Rightarrow> common_Hash set \<Rightarrow>
   StateSync \<Rightarrow> bool" where
  "sync_inv src kd rootHash origin kp wl pool P s =
     (store_inv src kd s \<and> request_inv src (reach kd rootHash) s \<and> known_inv kp s \<and>
      waiting_inv kd wl s \<and> parents_inv kp rootHash origin s \<and> queue_inv s pool \<and>
      root_inv rootHash s \<and> index_inv kp rootHash origin s \<and> done_inv P s)"

chapter \<open>Properties\<close>

section \<open>Proximity\<close>

lemma drop_bit_and_1_iff: "(drop_bit n (w::byte)) AND 1 \<noteq> 0 \<longleftrightarrow> bit w n"
  by (simp add: bit_iff_and_drop_bit_eq_1 and_one_eq mod_2_eq_odd)

lemma bit_loop_None_iff:
  "bit_loop w m j = None \<longleftrightarrow> (\<forall>k. j \<le> k \<and> k < m \<longrightarrow> \<not> bit w (7 - k))"
proof (induction w m j rule: bit_loop.induct)
  case (1 oxo m j)
  show ?case
  proof (cases "j < m")
    case False
    then show ?thesis by (auto simp: bit_loop.simps [of oxo m j])
  next
    case True
    show ?thesis
    proof (cases "bit oxo (7 - j)")
      case True
      with \<open>j < m\<close> show ?thesis
        by (auto simp: bit_loop.simps [of oxo m j] drop_bit_and_1_iff)
    next
      case False
      with \<open>j < m\<close> 1
      have "bit_loop oxo m j = None \<longleftrightarrow> (\<forall>k. Suc j \<le> k \<and> k < m \<longrightarrow> \<not> bit oxo (7 - k))"
        by (simp add: bit_loop.simps [of oxo m j] drop_bit_and_1_iff)
      also have "\<dots> \<longleftrightarrow> (\<forall>k. j \<le> k \<and> k < m \<longrightarrow> \<not> bit oxo (7 - k))"
        using False by (metis Suc_leI not_less_eq_eq le_eq_less_or_eq Suc_le_eq)
      finally show ?thesis .
    qed
  qed
qed

lemma bit_loop_Some_range: "bit_loop w m j = Some k \<Longrightarrow> j \<le> k \<and> k < m"
proof (induction w m j rule: bit_loop.induct)
  case (1 oxo m j)
  then show ?case
    by (subst (asm) (2) bit_loop.simps) (auto split: if_splits)
qed

lemma bit_loop_zero_iff: "bit_loop w 8 0 = None \<longleftrightarrow> w = 0"
proof -
  have "(\<forall>k<8. \<not> bit w (7 - k)) \<longleftrightarrow> (\<forall>n<8. \<not> bit w n)"
  proof
    assume h: "\<forall>k<8. \<not> bit w (7 - k)"
    show "\<forall>n<8. \<not> bit w n"
    proof (intro allI impI)
      fix n :: nat assume "n < 8"
      then have "7 - n < 8" "7 - (7 - n) = n" by auto
      with h show "\<not> bit w n" by metis
    qed
  next
    assume "\<forall>n<8. \<not> bit w n"
    then show "\<forall>k<8. \<not> bit w (7 - k)" by simp
  qed
  also have "\<dots> \<longleftrightarrow> w = 0"
    by (auto simp: bit_eq_iff dest: bit_imp_le_length)
  finally show ?thesis by (simp add: bit_loop_None_iff)
qed

lemma bit_loop_top: "bit_loop (0x80::byte) 8 0 = Some 0"
  by (simp add: bit_loop.simps [of _ 8 0])

lemma xor_eq_0_byte: "(a::byte) XOR b = 0 \<Longrightarrow> a = b"
  by (metis xor.left_neutral xor_self_eq xor.assoc xor.commute)

lemma byte_loop_commute: "byte_loop one other b i = byte_loop other one b i"
proof (induction one other b i rule: byte_loop.induct)
  case (1 one other b i)
  show ?case
  proof (cases "i < b \<and> i < length one \<and> i < length other")
    case False
    then show ?thesis
      by (auto simp: byte_loop.simps [of one other b i] byte_loop.simps [of other one b i])
  next
    case True
    have x: "(one ! i) XOR (other ! i) = (other ! i) XOR (one ! i)"
      by (simp add: xor.commute)
    show ?thesis
    proof (cases "bit_loop ((one ! i) XOR (other ! i)) 8 0")
      case None
      with True 1 x show ?thesis
        by (simp add: byte_loop.simps [of one other b i] byte_loop.simps [of other one b i])
    next
      case (Some j)
      with True x show ?thesis
        by (simp add: byte_loop.simps [of one other b i] byte_loop.simps [of other one b i])
    qed
  qed
qed

text \<open>Where the two addresses agree on the whole window, the loop runs to its end.\<close>

lemma byte_loop_agree:
  "(\<forall>k. i \<le> k \<and> k < b \<longrightarrow> k < length one \<and> k < length other \<and> one ! k = other ! k) \<Longrightarrow>
   byte_loop one other b i = Inr MaxPO"
proof (induction one other b i rule: byte_loop.induct)
  case (1 one other b i)
  show ?case
  proof (cases "i < b")
    case False
    then show ?thesis by (simp add: byte_loop.simps [of one other b i])
  next
    case True
    with 1(2) have here: "i < length one" "i < length other" "one ! i = other ! i"
      by auto
    then have none: "bit_loop ((one ! i) XOR (other ! i)) 8 0 = None"
      by (simp add: bit_loop_zero_iff)
    have "byte_loop one other b (Suc i) = Inr MaxPO"
      using 1(1) [OF True _ none] here 1(2) by auto
    with True here none show ?thesis
      by (simp add: byte_loop.simps [of one other b i])
  qed
qed

text \<open>Where they differ inside the window, the result is a bit position of the window.\<close>

lemma byte_loop_differ:
  "b \<le> length one \<Longrightarrow> b \<le> length other \<Longrightarrow>
   \<exists>k. i \<le> k \<and> k < b \<and> one ! k \<noteq> other ! k \<Longrightarrow>
   \<exists>n. byte_loop one other b i = Inr n \<and> 8 * i \<le> n \<and> n < 8 * b"
proof (induction one other b i rule: byte_loop.induct)
  case (1 one other b i)
  from 1(4) have True: "i < b" by auto
  with 1(2,3) have here: "i < length one" "i < length other" by auto
  show ?case
  proof (cases "bit_loop ((one ! i) XOR (other ! i)) 8 0")
    case (Some j)
    then have "j < 8" using bit_loop_Some_range by blast
    with True here Some show ?thesis
      by (simp add: byte_loop.simps [of one other b i])
  next
    case None
    then have "(one ! i) XOR (other ! i) = 0"
      by (simp add: bit_loop_zero_iff)
    then have "one ! i = other ! i"
      by (rule xor_eq_0_byte)
    with 1(4) have "\<exists>k. Suc i \<le> k \<and> k < b \<and> one ! k \<noteq> other ! k"
      by (metis Suc_leI le_neq_implies_less)
    from 1(1) [OF True _ None 1(2,3) this] here
    obtain n where "byte_loop one other b (Suc i) = Inr n" "8 * Suc i \<le> n" "n < 8 * b"
      by auto
    with True here None show ?thesis
      by (simp add: byte_loop.simps [of one other b i])
  qed
qed

lemma Proximity_self: "Proximity x x = Inr 16"
  by (simp add: Proximity_def Let_def byte_loop_agree MaxPO_def)

lemma Proximity_range:
  assumes "length x = length y"
  shows "\<exists>n\<le>16. Proximity x y = Inr n"
    and "Proximity x y = Inr 16 \<longleftrightarrow> take 2 x = take 2 y"
proof -
  let ?b = "if 2 > length x then length x else 2"
  have w: "(MaxPO - 1) div 8 + 1 = 2"
    by (simp add: MaxPO_def)
  have P: "Proximity x y = byte_loop x y ?b 0"
    unfolding Proximity_def Let_def w by simp
  have b: "?b \<le> length x" "?b \<le> length y" "8 * ?b \<le> 16"
    using assms by auto
  have agree_iff: "(\<forall>k. k < ?b \<longrightarrow> x ! k = y ! k) \<longleftrightarrow> take 2 x = take 2 y"
    using assms by (auto simp: list_eq_iff_nth_eq)
  show "\<exists>n\<le>16. Proximity x y = Inr n"
  proof (cases "\<forall>k. k < ?b \<longrightarrow> x ! k = y ! k")
    case True
    with b have "byte_loop x y ?b 0 = Inr MaxPO"
      by (intro byte_loop_agree) auto
    with P show ?thesis by (simp add: MaxPO_def)
  next
    case False
    then have "\<exists>k. 0 \<le> k \<and> k < ?b \<and> x ! k \<noteq> y ! k" by auto
    from byte_loop_differ [OF b(1,2) this] b(3) P show ?thesis
      by (metis le_trans less_imp_le_nat)
  qed
  show "Proximity x y = Inr 16 \<longleftrightarrow> take 2 x = take 2 y"
  proof (cases "\<forall>k. k < ?b \<longrightarrow> x ! k = y ! k")
    case True
    with b have "byte_loop x y ?b 0 = Inr MaxPO"
      by (intro byte_loop_agree) auto
    with P True agree_iff show ?thesis by (simp add: MaxPO_def)
  next
    case False
    then have "\<exists>k. 0 \<le> k \<and> k < ?b \<and> x ! k \<noteq> y ! k" by auto
    from byte_loop_differ [OF b(1,2) this] b(3) P have "Proximity x y \<noteq> Inr 16"
      by (metis Inr_inject less_le_not_le)
    with False agree_iff show ?thesis by simp
  qed
qed

text \<open>
  Claim C4, as stated: \<open>Proximity(x, x) = 256\<close> for identical addresses. The code returns
  \<open>MaxPO = 16\<close>: here at the one-byte address \<open>[0]\<close>.
\<close>

theorem Proximity_self_not_256: "Proximity [0] [0] \<noteq> Inr 256"
  by (simp add: Proximity_self)

text \<open>
  Claim C4, amended: for identical addresses \<open>Proximity(x, x) = MaxPO = 16\<close>; for addresses
  of equal length the proximity order is an integer in \<open>[0, 16]\<close>, and it is 16 exactly
  when the two addresses agree on the window of their first two bytes (so 16 is what
  identical addresses get, and also what addresses that differ only later get).
\<close>

theorem Proximity_self_MaxPO:
  "Proximity x x = Inr MaxPO \<and> MaxPO = 16 \<and>
   (length x = length y \<longrightarrow>
      (\<exists>n\<le>16. Proximity x y = Inr n) \<and>
      (Proximity x y = Inr 16 \<longleftrightarrow> take 2 x = take 2 y))"
  using Proximity_range [of x y] by (simp add: Proximity_self MaxPO_def)

theorem Proximity_self_MaxPO_witness:
  "Proximity [1, 2, 3] [1, 2, 3] = Inr MaxPO \<and> MaxPO = 16 \<and>
   length [1, 2, 3 :: byte] = length [1, 2, 4 :: byte] \<and>
   Proximity [1, 2, 3] [1, 2, 4] = Inr 16 \<and>
   take 2 [1, 2, 3 :: byte] = take 2 [1, 2, 4]"
  using Proximity_self_MaxPO [of "[1, 2, 3]" "[1, 2, 4]"] by simp

text \<open>
  Claim C5: for addresses of equal length, \<open>Proximity(x, y) = 16\<close> when \<open>x = y\<close>;
  \<open>Proximity(x, y) = Proximity(y, x)\<close>; and flipping the most significant bit of byte 0 of
  \<open>x\<close> (which needs \<open>x\<close> to have a byte 0) gives proximity 0.
\<close>

theorem Proximity_properties:
  "Proximity x x = Inr 16 \<and>
   (length x = length y \<longrightarrow> Proximity x y = Proximity y x) \<and>
   (x \<noteq> [] \<longrightarrow> Proximity x (flip_top_bit x) = Inr 0)"
proof (intro conjI impI)
  show "Proximity x x = Inr 16"
    by (rule Proximity_self)
next
  assume "length x = length y"
  then show "Proximity x y = Proximity y x"
    by (simp add: Proximity_def Let_def byte_loop_commute [of x y])
next
  assume "x \<noteq> []"
  then show "Proximity x (flip_top_bit x) = Inr 0"
    by (cases x) (simp_all add: Proximity_def Let_def flip_top_bit_def MaxPO_def
        byte_loop.simps [of _ _ _ 0] bit_loop_top)
qed

theorem Proximity_properties_witness:
  "Proximity [0x12, 0x34] [0x12, 0x34] = Inr 16 \<and>
   length [0x12, 0x34 :: byte] = length [0x12, 0x35 :: byte] \<and>
   Proximity [0x12, 0x34] [0x12, 0x35] = Proximity [0x12, 0x35] [0x12, 0x34] \<and>
   [0x12, 0x34 :: byte] \<noteq> [] \<and>
   Proximity [0x12, 0x34] (flip_top_bit [0x12, 0x34]) = Inr 0"
  using Proximity_properties [of "[0x12, 0x34]" "[0x12, 0x35]"] by simp

section \<open>ValidatorStore.Put\<close>

lemma validators_loop_none:
  "\<forall>v\<in>set vs. \<not> v ch \<Longrightarrow> validators_loop put vs mode ch s = (Some ErrChunkInvalid, s)"
  by (induction vs) auto

lemma validators_loop_some:
  "\<exists>v\<in>set vs. v ch \<Longrightarrow> validators_loop put vs mode ch s = put mode ch s"
  by (induction vs) auto

text \<open>
  Claim C3: with an empty validator list \<open>Put\<close> returns the invalid-chunk error and leaves
  the wrapped store as it was; if at least one validator accepts the chunk, \<open>Put\<close> is the
  wrapped store's \<open>Put\<close>; if every validator rejects it, \<open>Put\<close> returns the invalid-chunk
  error (and again leaves the store as it was).
\<close>

theorem ValidatorStore_Put_cases:
  "(validators s = [] \<longrightarrow> Put s mode ch st = (Some ErrChunkInvalid, st)) \<and>
   ((\<exists>v\<in>set (validators s). v ch) \<longrightarrow> Put s mode ch st = Store s mode ch st) \<and>
   ((\<forall>v\<in>set (validators s). \<not> v ch) \<longrightarrow> Put s mode ch st = (Some ErrChunkInvalid, st))"
  by (simp add: Put_def validators_loop_none validators_loop_some)

theorem ValidatorStore_Put_cases_witness:
  "Put (NewValidatorStore mem_put []) ModePutUpload \<lparr>addr = [1], sdata = [2]\<rparr> []
     = (Some ErrChunkInvalid, []) \<and>
   Put (NewValidatorStore mem_put [\<lambda>c. False, \<lambda>c. sdata c \<noteq> []]) ModePutUpload
       \<lparr>addr = [1], sdata = [2]\<rparr> []
     = (None, [\<lparr>addr = [1], sdata = [2]\<rparr>]) \<and>
   Put (NewValidatorStore mem_put [\<lambda>c. False, \<lambda>c. sdata c \<noteq> []]) ModePutUpload
       \<lparr>addr = [1], sdata = []\<rparr> []
     = (Some ErrChunkInvalid, [])"
  using ValidatorStore_Put_cases [of "NewValidatorStore mem_put []" ModePutUpload
      "\<lparr>addr = [1], sdata = [2]\<rparr>" "[]"]
    ValidatorStore_Put_cases [of "NewValidatorStore mem_put [\<lambda>c. False, \<lambda>c. sdata c \<noteq> []]"
      ModePutUpload "\<lparr>addr = [1], sdata = [2]\<rparr>" "[]"]
    ValidatorStore_Put_cases [of "NewValidatorStore mem_put [\<lambda>c. False, \<lambda>c. sdata c \<noteq> []]"
      ModePutUpload "\<lparr>addr = [1], sdata = []\<rparr>" "[]"]
  by (simp add: NewValidatorStore_def mem_put_def)

section \<open>The legacy mining engine's verify\<close>

lemma PutUvarint_loop_full: "length buf \<le> i \<Longrightarrow> PutUvarint_loop buf i x = Inl IndexOutOfRange"
  by (simp add: PutUvarint_loop.simps [of buf i x])

lemma PutUvarint_loop_panics_iff:
  "i < length buf \<Longrightarrow>
   PutUvarint_loop buf i x = Inl IndexOutOfRange \<longleftrightarrow> 2 ^ (7 * (length buf - i)) \<le> unat x"
proof (induction buf i x rule: PutUvarint_loop.induct)
  case (1 buf i x)
  show ?case
  proof (cases "0x80 \<le> x")
    case False
    then have small: "unat x < 128"
      by (simp add: word_le_nat_alt)
    from 1(2) obtain d where d: "length buf - i = Suc d"
      by (metis Suc_diff_Suc)
    have "(2::nat) ^ 7 \<le> 2 ^ (7 * Suc d)"
      by (rule power_increasing) auto
    then have "(128::nat) \<le> 2 ^ (7 * Suc d)"
      by simp
    with small d False 1(2) show ?thesis
      by (simp add: PutUvarint_loop.simps [of buf i x])
  next
    case True
    then have big: "128 \<le> unat x"
      by (simp add: word_le_nat_alt)
    show ?thesis
    proof (cases "Suc i < length buf")
      case False
      with 1(2) have e: "length buf - i = 1" by simp
      from False have "PutUvarint_loop (buf[i := (ucast x) OR 0x80]) (Suc i) (drop_bit 7 x) = Inl IndexOutOfRange"
        by (intro PutUvarint_loop_full) simp
      with True 1(2) e big show ?thesis
        by (simp add: PutUvarint_loop.simps [of buf i x])
    next
      case s: True
      then obtain d where d: "length buf - i = Suc d" "length buf - Suc i = d"
        by (metis Suc_diff_Suc Suc_lessD)
      have p: "(2::nat) ^ (7 * Suc d) = 2 ^ (7 * d) * 128"
        by (simp add: power_add)
      have "PutUvarint_loop (buf[i := (ucast x) OR 0x80]) (Suc i) (drop_bit 7 x) = Inl IndexOutOfRange
          \<longleftrightarrow> 2 ^ (7 * d) \<le> unat (drop_bit 7 x)"
        using 1(1) [OF True 1(2)] s d by simp
      also have "\<dots> \<longleftrightarrow> 2 ^ (7 * d) \<le> unat x div 128"
        by (simp add: drop_bit_eq_div unat_div)
      also have "\<dots> \<longleftrightarrow> 2 ^ (7 * d) * 128 \<le> unat x"
        by (simp add: less_eq_div_iff_mult_less_eq)
      finally have rec: "PutUvarint_loop (buf[i := (ucast x) OR 0x80]) (Suc i) (drop_bit 7 x) = Inl IndexOutOfRange
          \<longleftrightarrow> 2 ^ (7 * Suc d) \<le> unat x"
        unfolding p .
      have "PutUvarint_loop buf i x = PutUvarint_loop (buf[i := (ucast x) OR 0x80]) (Suc i) (drop_bit 7 x)"
        using True 1(2) by (subst PutUvarint_loop.simps) simp
      with rec d(1) show ?thesis
        by (simp only:)
    qed
  qed
qed

lemma PutUvarint_loop_length:
  "PutUvarint_loop buf i x = Inr (buf', n) \<Longrightarrow> length buf' = length buf \<and> n \<le> length buf"
proof (induction buf i x rule: PutUvarint_loop.induct)
  case (1 buf i x)
  show ?case
  proof (cases "0x80 \<le> x")
    case False
    with 1(2) show ?thesis
      by (subst (asm) PutUvarint_loop.simps) (auto split: if_splits)
  next
    case True
    with 1(2) have i: "i < length buf"
      and r: "PutUvarint_loop (buf[i := (ucast x) OR 0x80]) (Suc i) (drop_bit 7 x) = Inr (buf', n)"
      by (subst (asm) PutUvarint_loop.simps, simp split: if_splits)+
    from 1(1) [OF True i r] show ?thesis by simp
  qed
qed

lemma PutUvarint_loop_result:
  "PutUvarint_loop buf i x = Inl IndexOutOfRange \<or> (\<exists>buf' n. PutUvarint_loop buf i x = Inr (buf', n))"
proof (induction buf i x rule: PutUvarint_loop.induct)
  case (1 buf i x)
  show ?case
  proof (cases "0x80 \<le> x \<and> i < length buf")
    case True
    with 1 show ?thesis
      by (subst (1 2) PutUvarint_loop.simps) simp
  next
    case False
    then show ?thesis
      by (subst (1 2) PutUvarint_loop.simps) auto
  qed
qed

text \<open>The 8-byte buffer of \<open>verify\<close> takes the nonces below \<open>2^56\<close> and no others.\<close>

lemma PutUvarint_8_panics_iff:
  "PutUvarint (replicate 8 0) x = Inl IndexOutOfRange \<longleftrightarrow> 2 ^ 56 \<le> unat x"
  using PutUvarint_loop_panics_iff [of 0 "replicate 8 0" x] by (simp add: PutUvarint_def)

lemma PutUvarint_8_fits:
  assumes "unat x < 2 ^ 56"
  shows "\<exists>buf n. PutUvarint (replicate 8 0) x = Inr (buf, n) \<and> length buf = 8 \<and> n \<le> 8"
proof -
  from assms have "PutUvarint_loop (replicate 8 0) 0 x \<noteq> Inl IndexOutOfRange"
    using PutUvarint_8_panics_iff [of x] by (simp add: PutUvarint_def)
  with PutUvarint_loop_result [of "replicate 8 0" 0 x]
  obtain buf n where r: "PutUvarint_loop (replicate 8 0) 0 x = Inr (buf, n)"
    by blast
  from PutUvarint_loop_length [OF r] r show ?thesis
    by (simp add: PutUvarint_def)
qed

text \<open>
  Where the nonce fits the buffer, \<open>verify\<close> is the comparison of the spec: it accepts
  exactly when the digest of the hash followed by the nonce buffer, read as an unsigned
  integer, is at most \<open>2^256 / D\<close>.
\<close>

lemma verify_in_range:
  assumes "0 < D" and "unat nonce < 2 ^ 56"
  shows "\<exists>buf n. PutUvarint (replicate 8 0) nonce = Inr (buf, n) \<and> length buf = 8 \<and>
           verify keccak256 hash D nonce = Inr (BigD (keccak256 (hash @ buf)) \<le> 2 ^ 256 div D)"
proof -
  from PutUvarint_8_fits [OF assms(2)]
  obtain buf n where r: "PutUvarint (replicate 8 0) nonce = Inr (buf, n)" "length buf = 8"
    by blast
  with assms(1) have "verify keccak256 hash D nonce = Inr (BigD (keccak256 (hash @ buf)) \<le> 2 ^ 256 div D)"
    by (simp add: verify_def big_Div_def BigPow_def)
  with r show ?thesis by blast
qed

lemma BigD_foldl_bound:
  "0 \<le> a \<Longrightarrow> a < 256 ^ k \<Longrightarrow>
   0 \<le> foldl (\<lambda>acc b. acc * 256 + uint (b::byte)) a bs \<and>
   foldl (\<lambda>acc b. acc * 256 + uint b) a bs < 256 ^ (k + length bs)"
proof (induction bs arbitrary: a k)
  case Nil
  then show ?case by simp
next
  case (Cons b bs)
  have b: "0 \<le> uint b" "uint b < 256"
    using uint_lt2p [of b] by simp_all
  from Cons.prems have "a + 1 \<le> 256 ^ k" by simp
  then have "(a + 1) * 256 \<le> 256 ^ k * 256"
    by (rule mult_right_mono) simp
  with b have "a * 256 + uint b < 256 ^ Suc k"
    by (simp add: algebra_simps)
  moreover from Cons.prems b have "0 \<le> a * 256 + uint b" by simp
  ultimately show ?case
    using Cons.IH [of "a * 256 + uint b" "Suc k"] by simp
qed

text \<open>A digest of at most 32 bytes is below \<open>2^256\<close>: difficulty 1 accepts every digest.\<close>

lemma BigD_bound: "length bs \<le> 32 \<Longrightarrow> BigD bs < 2 ^ 256 div 1"
proof -
  assume "length bs \<le> 32"
  then have "(256::int) ^ length bs \<le> 256 ^ 32"
    by (intro power_increasing) auto
  moreover have "BigD bs < 256 ^ (0 + length bs)"
    unfolding BigD_def using BigD_foldl_bound [of 0 0 bs] by simp
  ultimately show ?thesis by simp
qed

text \<open>
  Claim C2 says that \<open>verify(hash, D, nonce)\<close> accepts exactly when the digest is at most
  \<open>2^256 / D\<close>, for every 64-bit nonce. With \<open>D = 1\<close> every 256-bit digest is within the
  bound (\<open>BigD_bound\<close>), so the claim has \<open>verify\<close> accept; at the nonce \<open>2^56\<close> it does
  not return: \<open>PutUvarint\<close> writes a ninth byte into the 8-byte buffer.
\<close>

theorem verify_difficulty_1_panics:
  "verify keccak256 hash 1 (2 ^ 56) = Inl IndexOutOfRange"
  using PutUvarint_8_panics_iff [of "2 ^ 56"] by (simp add: verify_def)

text \<open>
  Claim C9 says that \<open>verify\<close> is total. It is not: whatever the hash and the difficulty,
  \<open>verify\<close> panics with an index out of range exactly on the nonces from \<open>2^56\<close> on.
\<close>

theorem verify_panics_iff:
  "verify keccak256 hash diff nonce = Inl IndexOutOfRange \<longleftrightarrow> 2 ^ 56 \<le> unat nonce"
proof (cases "2 ^ 56 \<le> unat nonce")
  case True
  then show ?thesis
    using PutUvarint_8_panics_iff [of nonce] by (simp add: verify_def)
next
  case False
  then have "unat nonce < 2 ^ 56" by simp
  from PutUvarint_8_fits [OF this]
  obtain buf n where "PutUvarint (replicate 8 0) nonce = Inr (buf, n)"
    by blast
  with False show ?thesis
    by (simp add: verify_def big_Div_def)
qed

section \<open>Filter.MatchMessage\<close>





section \<open>The storage wire protocol: oversized messages\<close>

lemma handle_oversized:
  "unat (Size msg) > ProtocolMaxMsgSize \<Longrightarrow>
   handle env now (Inr msg) b = (Some (MessageTooLong (unat (Size msg)) ProtocolMaxMsgSize), [], b)"
  by (simp add: handle_def)

lemma run_loop_append:
  "run_loop env pre b = (None, evs, b', []) \<Longrightarrow>
   run_loop env (pre @ ts) b =
     (case run_loop env ts b' of (err, evs', b'', rest) \<Rightarrow> (err, evs @ evs', b'', rest))"
proof (induction env pre b arbitrary: evs rule: run_loop.induct)
  case (1 env b)
  then show ?case by (simp split: prod.splits)
next
  case (2 env ps b)
  then show ?case by (auto split: prod.splits)
next
  case (3 env now rd ps b)
  show ?case
  proof (cases "handle env now rd b")
    case (fields err hevs hb)
    with 3(2) obtain evs2 where e: "err = None" and r: "run_loop env ps hb = (None, evs2, b', [])"
      and evs: "evs = hevs @ evs2"
      by (cases err) (auto split: prod.splits)
    from 3(1) [OF fields [unfolded e, symmetric] refl refl r] fields e evs show ?thesis
      by (auto split: prod.splits)
  qed
qed

text \<open>
  Claim C7: in a session after the handshake, whatever was handled before
  (the moments \<open>pre\<close>, handled without error, with events \<open>evs\<close>), a message whose declared
  size exceeds 10 MiB makes \<open>handle\<close> return the message-too-long error with no event at
  all, so no handler sees the message, not even its \<open>Discard\<close>; the loop of \<open>run\<close> ends
  with that error, adds only the cleanup of the session to the events, and leaves the later
  moments \<open>ts\<close> unread.
\<close>

theorem oversized_message_ends_session:
  assumes "unat (Size msg) > 10 * 1024 * 1024"
    and "run_loop env pre b = (None, evs, b', [])"
  shows "handle env now (Inr msg) b' = (Some (MessageTooLong (unat (Size msg)) ProtocolMaxMsgSize), [], b')
    \<and> run_loop env (pre @ Incoming now (Inr msg) # ts) b
        = (Some (MessageTooLong (unat (Size msg)) ProtocolMaxMsgSize), evs @ cleanup b', b', ts)
    \<and> filter dispatches (cleanup b') = []"
proof -
  from assms(1) have big: "unat (Size msg) > ProtocolMaxMsgSize"
    by (simp add: ProtocolMaxMsgSize_def)
  have "run_loop env (Incoming now (Inr msg) # ts) b'
      = (Some (MessageTooLong (unat (Size msg)) ProtocolMaxMsgSize), cleanup b', b', ts)"
    by (simp add: handle_oversized [OF big])
  with run_loop_append [OF assms(2), of "Incoming now (Inr msg) # ts"] handle_oversized [OF big]
  show ?thesis
    by (simp add: cleanup_def)
qed

theorem oversized_message_ends_session_witness:
  "run_loop (sample_env (Some 1, None))
     [BlockRead, Incoming 3 (Inr (sample_msg 3 9)),
      Incoming 4 (Inr (sample_msg 1 (10 * 1024 * 1024 + 1))), Incoming 5 (Inr (sample_msg 1 9))]
     (sample_bzz None)
   = (Some (MessageTooLong 10485761 ProtocolMaxMsgSize),
      [Sleep, CounterInc ''peers'', HandlePeersMsg (replicate 9 1), msg_Discard,
       hive_removePeer, swap_Stop],
      sample_bzz None, [Incoming 5 (Inr (sample_msg 1 9))])"
proof -
  have big: "unat (Size (sample_msg 1 (10 * 1024 * 1024 + 1))) > 10 * 1024 * 1024"
    by (simp add: sample_msg_def)
  have pre: "run_loop (sample_env (Some 1, None)) [BlockRead, Incoming 3 (Inr (sample_msg 3 9))]
      (sample_bzz None)
    = (None, [Sleep, CounterInc ''peers'', HandlePeersMsg (replicate 9 1), msg_Discard],
       sample_bzz None, [])"
    by (simp add: handle_def sample_env_def sample_msg_def finish_def ProtocolMaxMsgSize_def)
  from oversized_message_ends_session [OF big pre, of 4 "[Incoming 5 (Inr (sample_msg 1 9))]"]
  show ?thesis
    by (simp add: cleanup_def sample_bzz_def sample_msg_def)
qed

section \<open>The storage wire protocol: sync\<close>

text \<open>
  Claim C10: \<open>sync\<close> returns an error exactly when the session already has a syncer; when
  there is none and \<open>newSyncer\<close> fails (it returns a nil syncer and an error), \<open>sync\<close>
  returns nil and the session is left without a syncer.
\<close>

theorem sync_error_only_when_syncer_exists:
  "(fst (sync env state b) \<noteq> None \<longleftrightarrow> syncer b \<noteq> None) \<and>
   (syncer b = None \<and>
    newSyncer env (remoteAddr (fst (sync_prepare env state b))) (snd (sync_prepare env state b))
        (syncEnabled (fst (sync_prepare env state b))) = (None, Some e)
    \<longrightarrow> fst (sync env state b) = None \<and> syncer (snd (sync env state b)) = None)"
  by (auto simp: sync_def Let_def split: prod.splits)

theorem sync_error_only_when_syncer_exists_witness:
  "sync (sample_env (None, Some ''no request db'')) None (sample_bzz None)
     = (None, (sample_bzz None)\<lparr>syncEnabled := False\<rparr>) \<and>
   fst (sync (sample_env (None, Some ''no request db'')) None (sample_bzz (Some 2)))
     = Some SyncOnlyOnce"
proof -
  have "fst (sync (sample_env (None, Some ''no request db'')) None (sample_bzz None)) = None
      \<and> syncer (snd (sync (sample_env (None, Some ''no request db'')) None (sample_bzz None))) = None"
    using sync_error_only_when_syncer_exists
      [of "sample_env (None, Some ''no request db'')" None "sample_bzz None" "''no request db''"]
    by (simp add: sample_env_def sample_bzz_def)
  then show ?thesis
    by (simp add: sync_def sync_prepare_def sample_env_def sample_bzz_def)
qed

section \<open>SignStructuredData\<close>

text \<open>
  Claim C8: for every address and every typed-data input \<open>SignStructuredData\<close> returns the
  same byte sequence, the fixed placeholder \<open>Hex2Bytes("0xdeadbeef")\<close>, and a nil error:
  the result does not depend on either argument (only the lines printed do).
\<close>

theorem SignStructuredData_placeholder:
  "snd (SignStructuredData Hex2Bytes show_data show_hash address data) = (Hex2Bytes ''0xdeadbeef'', None) \<and>
   snd (SignStructuredData Hex2Bytes show_data show_hash address data)
     = snd (SignStructuredData Hex2Bytes show_data show_hash address' data')"
  by (simp add: SignStructuredData_def)

section \<open>The state tree synchronizer\<close>

subsection \<open>Effects of the operations on the requests\<close>

lemma delivered_upd:
  "map_of (requests s') = (map_of (requests s))(c \<mapsto> r) \<Longrightarrow>
   delivered s' = (if req_data r = None then delivered s - {c} else insert c (delivered s))"
  by (auto simp: delivered_def)

lemma awaited_upd:
  "map_of (requests s') = (map_of (requests s))(c \<mapsto> r) \<Longrightarrow>
   awaited s' = (if req_data r = None then insert c (awaited s) else awaited s - {c})"
  by (auto simp: awaited_def)

lemma delivered_del:
  "map_of (requests s') = (map_of (requests s))(c := None) \<Longrightarrow> delivered s' = delivered s - {c}"
  by (auto simp: delivered_def)

lemma awaited_del:
  "map_of (requests s') = (map_of (requests s))(c := None) \<Longrightarrow> awaited s' = awaited s - {c}"
  by (auto simp: awaited_def)

lemma delivered_same:
  "map_of (requests s') = map_of (requests s) \<Longrightarrow> delivered s' = delivered s"
  by (simp add: delivered_def)

lemma awaited_same:
  "map_of (requests s') = map_of (requests s) \<Longrightarrow> awaited s' = awaited s"
  by (simp add: awaited_def)

lemma delivered_awaited_disjoint: "delivered s \<inter> awaited s = {}"
  by (auto simp: delivered_def awaited_def)

lemma dom_requests: "dom (map_of (requests s)) = delivered s \<union> awaited s"
  by (auto simp: delivered_def awaited_def)

subsection \<open>Scheduling a child\<close>

text \<open>The three cases of \<open>schedule\<close>, each with its effect.\<close>

lemma schedule_resolved:
  assumes "database s c \<noteq> None"
  shows "database (schedule p c s) = database s"
    and "requests (schedule p c s) = requests s"
    and "queue (schedule p c s) = queue s"
    and "ref_index (schedule p c s) = insert (p, c) (ref_index s)"
  using assms by (simp_all add: schedule_def)

lemma schedule_in_flight:
  assumes "database s c = None" and "map_of (requests s) c = Some r"
  shows "database (schedule p c s) = database s"
    and "map_of (requests (schedule p c s))
           = (map_of (requests s))(c \<mapsto> r\<lparr>req_parents := req_parents r @ [p]\<rparr>)"
    and "distinct (map fst (requests s)) \<Longrightarrow> distinct (map fst (requests (schedule p c s)))"
    and "queue (schedule p c s) = queue s"
    and "ref_index (schedule p c s) = ref_index s"
  using assms by (simp_all add: schedule_def update_conv' distinct_update)

lemma schedule_new:
  assumes "database s c = None" and "map_of (requests s) c = None"
  shows "database (schedule p c s) = database s"
    and "map_of (requests (schedule p c s))
           = (map_of (requests s))(c \<mapsto> \<lparr>req_parents = [p], req_data = None\<rparr>)"
    and "distinct (map fst (requests s)) \<Longrightarrow> distinct (map fst (requests (schedule p c s)))"
    and "queue (schedule p c s) = queue s @ [c]"
    and "ref_index (schedule p c s) = ref_index s"
  using assms by (simp_all add: schedule_def update_conv' distinct_update)

lemma schedule_database [simp]: "database (schedule p c s) = database s"
  by (simp add: schedule_def split: option.splits)

lemma known_inv_insert:
  assumes "known_inv (kd(h := K)) s"
    and "c \<in> dom (database s') \<union> dom (map_of (requests s'))"
    and "dom (database s) \<union> dom (map_of (requests s)) \<subseteq> dom (database s') \<union> dom (map_of (requests s'))"
    and "delivered s' = delivered s"
  shows "known_inv (kd(h := insert c K)) s'"
  unfolding known_inv_def
proof (intro ballI subsetI)
  fix p x assume p: "p \<in> delivered s'" and x: "x \<in> (kd(h := insert c K)) p"
  show "x \<in> dom (database s') \<union> dom (map_of (requests s'))"
  proof (cases "x = c")
    case True
    with assms(2) show ?thesis by simp
  next
    case False
    with x have "x \<in> (kd(h := K)) p" by (auto split: if_splits)
    with assms(1) p assms(4) have "x \<in> dom (database s) \<union> dom (map_of (requests s))"
      unfolding known_inv_def by blast
    with assms(3) show ?thesis by blast
  qed
qed

text \<open>
  One step of the scheduling of the children of \<open>h\<close>: the invariant holds with one more
  child of \<open>h\<close> scheduled.
\<close>

lemma schedule_inv:
  assumes inv: "sync_inv src kd rootHash origin (kd(h := K)) wl pool P s"
    and h: "h \<in> delivered s" and c: "c \<in> kd h"
  shows "sync_inv src kd rootHash origin (kd(h := insert c K)) wl pool P (schedule h c s)"
proof -
  from inv have st: "store_inv src kd s" and rq: "request_inv src (reach kd rootHash) s"
    and kn: "known_inv (kd(h := K)) s" and wt: "waiting_inv kd wl s"
    and pa: "parents_inv (kd(h := K)) rootHash origin s" and qu: "queue_inv s pool"
    and ro: "root_inv rootHash s" and ix: "index_inv (kd(h := K)) rootHash origin s"
    and dn: "done_inv P s"
    by (simp_all add: sync_inv_def)
  from h obtain rh dh where rh: "map_of (requests s) h = Some rh" "req_data rh = Some dh"
    by (auto simp: delivered_def)
  with rq have hR: "h \<in> reach kd rootHash" and hD: "database s h = None"
    by (auto simp: request_inv_def)
  from hR c have cR: "c \<in> reach kd rootHash"
    by (rule reach.step)
  let ?s = "schedule h c s"
  show ?thesis
  proof (cases "database s c")
    case (Some b)
    then have e: "database s c \<noteq> None" by simp
    note eff = schedule_resolved [OF e, of h]
    have dl: "delivered ?s = delivered s" by (simp add: delivered_def eff)
    have aw: "awaited ?s = awaited s" by (simp add: awaited_def eff)
    have "store_inv src kd ?s" using st by (simp add: store_inv_def eff)
    moreover have "request_inv src (reach kd rootHash) ?s" using rq by (simp add: request_inv_def eff)
    moreover have "known_inv (kd(h := insert c K)) ?s"
      using kn Some by (intro known_inv_insert [OF kn]) (auto simp: eff dl)
    moreover have "waiting_inv kd wl ?s" using wt by (simp add: waiting_inv_def eff dl)
    moreover have "parents_inv (kd(h := insert c K)) rootHash origin ?s"
      unfolding parents_inv_def
    proof (intro allI impI)
      fix k r assume k: "map_of (requests ?s) k = Some r"
      then have k': "map_of (requests s) k = Some r" by (simp add: eff)
      with rq have "database s k = None" by (auto simp: request_inv_def)
      with Some have "k \<noteq> c" by auto
      then have "{p \<in> delivered s. k \<in> (kd(h := insert c K)) p} = {p \<in> delivered s. k \<in> (kd(h := K)) p}"
        by auto
      with pa k' show "set (req_parents r) =
          {p \<in> delivered ?s. k \<in> (kd(h := insert c K)) p} \<union>
          (if k = rootHash \<and> origin \<noteq> zero_hash then {origin} else {})"
        by (simp add: parents_inv_def dl)
    qed
    moreover have "queue_inv ?s pool" using qu by (simp add: queue_inv_def eff aw)
    moreover have "root_inv rootHash ?s" using ro by (simp add: root_inv_def eff)
    moreover have "index_inv (kd(h := insert c K)) rootHash origin ?s"
    proof -
      have "{(p, x). p \<in> dom (database s) \<union> delivered s \<and> x \<in> (kd(h := insert c K)) p \<and> x \<in> dom (database s)}
          = insert (h, c) {(p, x). p \<in> dom (database s) \<union> delivered s \<and> x \<in> (kd(h := K)) p \<and> x \<in> dom (database s)}"
        using h Some by (auto split: if_splits)
      with ix show ?thesis
        by (simp add: index_inv_def eff dl)
    qed
    moreover have "done_inv P ?s" using dn by (simp add: done_inv_def eff dl)
    ultimately show ?thesis by (simp add: sync_inv_def)
  next
    case None
    note cD = None
    show ?thesis
    proof (cases "map_of (requests s) c")
      case (Some r)
      note eff = schedule_in_flight [OF cD Some, of h]
      have dl: "delivered ?s = delivered s"
        using Some by (auto simp: delivered_def eff(2))
      have aw: "awaited ?s = awaited s"
        using Some by (auto simp: awaited_def eff(2))
      have dm: "dom (map_of (requests ?s)) = dom (map_of (requests s))"
        using Some by (auto simp: eff(2))
      have "store_inv src kd ?s" using st by (simp add: store_inv_def)
      moreover have "request_inv src (reach kd rootHash) ?s"
        using rq Some by (auto simp: request_inv_def eff(2) eff(3))
      moreover have "known_inv (kd(h := insert c K)) ?s"
        using Some by (intro known_inv_insert [OF kn]) (auto simp: dl dm)
      moreover have "waiting_inv kd wl ?s" using wt by (simp add: waiting_inv_def dl)
      moreover have "parents_inv (kd(h := insert c K)) rootHash origin ?s"
        unfolding parents_inv_def
      proof (intro allI impI)
        fix k r' assume k: "map_of (requests ?s) k = Some r'"
        show "set (req_parents r') =
          {p \<in> delivered ?s. k \<in> (kd(h := insert c K)) p} \<union>
          (if k = rootHash \<and> origin \<noteq> zero_hash then {origin} else {})"
        proof (cases "k = c")
          case True
          with k have r': "r' = r\<lparr>req_parents := req_parents r @ [h]\<rparr>"
            by (simp add: eff(2))
          have "{p \<in> delivered s. c \<in> (kd(h := insert c K)) p} = insert h {p \<in> delivered s. c \<in> (kd(h := K)) p}"
            using h by auto
          with pa Some True r' show ?thesis
            by (auto simp: parents_inv_def dl)
        next
          case False
          with k have k': "map_of (requests s) k = Some r'" by (simp add: eff(2))
          from False have "{p \<in> delivered s. k \<in> (kd(h := insert c K)) p} = {p \<in> delivered s. k \<in> (kd(h := K)) p}"
            by auto
          with pa k' show ?thesis
            by (simp add: parents_inv_def dl)
        qed
      qed
      moreover have "queue_inv ?s pool" using qu by (simp add: queue_inv_def eff aw)
      moreover have "root_inv rootHash ?s" using ro by (simp add: root_inv_def dm)
      moreover have "index_inv (kd(h := insert c K)) rootHash origin ?s"
      proof -
        have "{(p, x). p \<in> dom (database s) \<union> delivered s \<and> x \<in> (kd(h := insert c K)) p \<and> x \<in> dom (database s)}
            = {(p, x). p \<in> dom (database s) \<union> delivered s \<and> x \<in> (kd(h := K)) p \<and> x \<in> dom (database s)}"
          using cD by (auto split: if_splits)
        with ix show ?thesis
          by (simp add: index_inv_def eff dl)
      qed
      moreover have "done_inv P ?s" using dn by (simp add: done_inv_def dl)
      ultimately show ?thesis by (simp add: sync_inv_def)
    next
      case None
      note cN = None
      note eff = schedule_new [OF cD cN, of h]
      have dl: "delivered ?s = delivered s"
        using cN by (auto simp: delivered_def eff(2))
      have aw: "awaited ?s = insert c (awaited s)"
        by (auto simp: awaited_def eff(2))
      have dm: "dom (map_of (requests ?s)) = insert c (dom (map_of (requests s)))"
        by (auto simp: eff(2))
      have c_unknown: "c \<notin> (kd(h := K)) p" if "p \<in> delivered s" for p
      proof -
        from kn that have "(kd(h := K)) p \<subseteq> dom (database s) \<union> dom (map_of (requests s))"
          unfolding known_inv_def by blast
        with cD cN show ?thesis by blast
      qed
      have "store_inv src kd ?s" using st by (simp add: store_inv_def)
      moreover have "request_inv src (reach kd rootHash) ?s"
        using rq cD cR by (auto simp: request_inv_def eff(2) eff(3))
      moreover have "known_inv (kd(h := insert c K)) ?s"
        by (intro known_inv_insert [OF kn]) (auto simp: dl dm)
      moreover have "waiting_inv kd wl ?s" using wt by (simp add: waiting_inv_def dl)
      moreover have "parents_inv (kd(h := insert c K)) rootHash origin ?s"
        unfolding parents_inv_def
      proof (intro allI impI)
        fix k r' assume k: "map_of (requests ?s) k = Some r'"
        show "set (req_parents r') =
          {p \<in> delivered ?s. k \<in> (kd(h := insert c K)) p} \<union>
          (if k = rootHash \<and> origin \<noteq> zero_hash then {origin} else {})"
        proof (cases "k = c")
          case True
          with k have r': "r' = \<lparr>req_parents = [h], req_data = None\<rparr>"
            by (simp add: eff(2))
          have "c \<notin> kd p" if "p \<in> delivered s" "p \<noteq> h" for p
            using c_unknown [OF that(1)] that(2) by simp
          then have "{p \<in> delivered s. c \<in> (kd(h := insert c K)) p} = {h}"
            using h by (auto split: if_splits)
          moreover from ro cD cN have "c \<noteq> rootHash"
            by (auto simp: root_inv_def)
          ultimately show ?thesis
            using True r' by (simp add: dl)
        next
          case False
          with k have k': "map_of (requests s) k = Some r'" by (simp add: eff(2))
          from False have "{p \<in> delivered s. k \<in> (kd(h := insert c K)) p} = {p \<in> delivered s. k \<in> (kd(h := K)) p}"
            by auto
          with pa k' show ?thesis
            by (simp add: parents_inv_def dl)
        qed
      qed
      moreover have "queue_inv ?s pool"
      proof -
        from cN have "c \<notin> awaited s" by (auto simp: awaited_def)
        with qu show ?thesis by (auto simp: queue_inv_def eff aw)
      qed
      moreover have "root_inv rootHash ?s" using ro by (auto simp: root_inv_def dm)
      moreover have "index_inv (kd(h := insert c K)) rootHash origin ?s"
      proof -
        have "{(p, x). p \<in> dom (database s) \<union> delivered s \<and> x \<in> (kd(h := insert c K)) p \<and> x \<in> dom (database s)}
            = {(p, x). p \<in> dom (database s) \<union> delivered s \<and> x \<in> (kd(h := K)) p \<and> x \<in> dom (database s)}"
          using cD by (auto split: if_splits)
        with ix show ?thesis
          by (simp add: index_inv_def eff dl)
      qed
      moreover have "done_inv P ?s" using dn by (simp add: done_inv_def dl)
      ultimately show ?thesis by (simp add: sync_inv_def)
    qed
  qed
qed

lemma schedule_delivered [simp]: "delivered (schedule p c s) = delivered s"
proof (cases "database s c")
  case (Some b)
  then show ?thesis by (simp add: delivered_def schedule_def)
next
  case None
  then show ?thesis
    by (cases "map_of (requests s) c") (auto simp: delivered_def schedule_def update_conv')
qed

lemma fold_schedule_inv:
  assumes "sync_inv src kd rootHash origin (kd(h := K)) wl pool P s"
    and "h \<in> delivered s" and "set cs \<subseteq> kd h"
  shows "sync_inv src kd rootHash origin (kd(h := K \<union> set cs)) wl pool P (fold (schedule h) cs s)"
  using assms
proof (induction cs arbitrary: s K)
  case Nil
  then show ?case by simp
next
  case (Cons c cs)
  from Cons.prems(3) have "c \<in> kd h" by simp
  with Cons.prems(1,2)
  have "sync_inv src kd rootHash origin (kd(h := insert c K)) wl pool P (schedule h c s)"
    by (rule schedule_inv)
  moreover from Cons.prems have "h \<in> delivered (schedule h c s)" by simp
  moreover from Cons.prems have "set cs \<subseteq> kd h" by simp
  ultimately have "sync_inv src kd rootHash origin (kd(h := insert c K \<union> set cs)) wl pool P
      (fold (schedule h) cs (schedule h c s))"
    by (rule Cons.IH)
  moreover have "insert c K \<union> set cs = K \<union> set (c # cs)" by auto
  ultimately show ?case by (simp only: fold.simps o_apply)
qed



subsection \<open>The arrival of a node's bytes\<close>

lemma arrival_inv:
  assumes inv: "sync_inv src kd rootHash origin kd [] pool P s"
    and h: "h \<in> set pool" and r: "map_of (requests s) h = Some r" and d: "src h = Some d"
  shows "sync_inv src kd rootHash origin (kd(h := {})) [h] (removeAll h pool) (insert h P)
           (s\<lparr>requests := AList.update h (r\<lparr>req_data := Some d\<rparr>) (requests s)\<rparr>)"
proof -
  let ?s = "s\<lparr>requests := AList.update h (r\<lparr>req_data := Some d\<rparr>) (requests s)\<rparr>"
  from inv have st: "store_inv src kd s" and rq: "request_inv src (reach kd rootHash) s"
    and kn: "known_inv kd s" and wt: "waiting_inv kd [] s"
    and pa: "parents_inv kd rootHash origin s" and qu: "queue_inv s pool"
    and ro: "root_inv rootHash s" and ix: "index_inv kd rootHash origin s"
    and dn: "done_inv P s"
    by (simp_all add: sync_inv_def)
  from qu h have aw: "h \<in> awaited s" and hq: "h \<notin> set (queue s)" and dp: "distinct pool"
    by (auto simp: queue_inv_def)
  from aw r have rN: "req_data r = None" by (auto simp: awaited_def)
  then have hd: "h \<notin> delivered s" using r by (auto simp: delivered_def)
  from rq r have hD: "database s h = None" by (auto simp: request_inv_def)
  have m: "map_of (requests ?s) = (map_of (requests s))(h \<mapsto> r\<lparr>req_data := Some d\<rparr>)"
    by (simp add: update_conv')
  have dl: "delivered ?s = insert h (delivered s)"
    unfolding delivered_def m by auto
  have aw': "awaited ?s = awaited s - {h}"
    unfolding awaited_def m by auto
  have dm: "dom (map_of (requests ?s)) = dom (map_of (requests s))"
    unfolding m using r by auto
  have "store_inv src kd ?s" using st by (simp add: store_inv_def)
  moreover have "request_inv src (reach kd rootHash) ?s"
  proof -
    have "distinct (map fst (requests ?s))"
      using rq by (simp add: request_inv_def distinct_update)
    moreover have "dom (database ?s) \<subseteq> reach kd rootHash"
      using rq by (simp add: request_inv_def)
    moreover have "database ?s k = None \<and> k \<in> reach kd rootHash \<and> (\<forall>d'. req_data r' = Some d' \<longrightarrow> src k = Some d')"
      if "map_of (requests ?s) k = Some r'" for k r'
    proof (cases "k = h")
      case True
      with that have "r' = r\<lparr>req_data := Some d\<rparr>" unfolding m by simp
      with True rq r d show ?thesis unfolding request_inv_def by auto
    next
      case False
      with that have "map_of (requests s) k = Some r'" unfolding m by simp
      with rq show ?thesis unfolding request_inv_def by auto
    qed
    ultimately show ?thesis unfolding request_inv_def by blast
  qed
  moreover have "known_inv (kd(h := {})) ?s"
    using kn unfolding known_inv_def dl dm by auto
  moreover have "waiting_inv kd [h] ?s"
    using wt by (auto simp: waiting_inv_def dl)
  moreover have "parents_inv (kd(h := {})) rootHash origin ?s"
    unfolding parents_inv_def
  proof (intro allI impI)
    fix k r' assume k: "map_of (requests ?s) k = Some r'"
    have e: "{p \<in> insert h (delivered s). k \<in> (kd(h := {})) p} = {p \<in> delivered s. k \<in> kd p}"
      using hd by auto
    from k have "\<exists>r0. map_of (requests s) k = Some r0 \<and> req_parents r0 = req_parents r'"
      unfolding m using r by (cases "k = h") auto
    then obtain r0 where r0: "map_of (requests s) k = Some r0" "req_parents r0 = req_parents r'"
      by blast
    from pa r0(1) have "set (req_parents r0) =
        {p \<in> delivered s. k \<in> kd p} \<union> (if k = rootHash \<and> origin \<noteq> zero_hash then {origin} else {})"
      unfolding parents_inv_def by blast
    then show "set (req_parents r') =
        {p \<in> delivered ?s. k \<in> (kd(h := {})) p} \<union>
        (if k = rootHash \<and> origin \<noteq> zero_hash then {origin} else {})"
      unfolding dl e r0(2) .
  qed
  moreover have "queue_inv ?s (removeAll h pool)"
    using qu hq by (auto simp: queue_inv_def aw' distinct_removeAll)
  moreover have "root_inv rootHash ?s"
    using ro unfolding root_inv_def dm by simp
  moreover have "index_inv (kd(h := {})) rootHash origin ?s"
  proof -
    have "{(p, x). p \<in> dom (database s) \<union> insert h (delivered s) \<and> x \<in> (kd(h := {})) p \<and> x \<in> dom (database s)}
        = {(p, x). p \<in> dom (database s) \<union> delivered s \<and> x \<in> kd p \<and> x \<in> dom (database s)}"
      using hd hD by (auto split: if_splits)
    with ix show ?thesis
      by (simp add: index_inv_def dl)
  qed
  moreover have "done_inv (insert h P) ?s" using dn by (auto simp: done_inv_def dl)
  ultimately show ?thesis by (simp add: sync_inv_def)
qed



subsection \<open>Committing a node and its parents\<close>

lemma commit_inv:
  assumes inv: "sync_inv src kd rootHash origin kd (h # hs) pool P s"
    and r: "map_of (requests s) h = Some r" and d: "req_data r = Some d"
    and ready: "kd h \<subseteq> dom (database s)"
  shows "sync_inv src kd rootHash origin kd (req_parents r @ hs) pool P (commit h r d s)"
proof -
  let ?s = "commit h r d s"
  from inv have st: "store_inv src kd s" and rq: "request_inv src (reach kd rootHash) s"
    and kn: "known_inv kd s" and wt: "waiting_inv kd (h # hs) s"
    and pa: "parents_inv kd rootHash origin s" and qu: "queue_inv s pool"
    and ro: "root_inv rootHash s" and ix: "index_inv kd rootHash origin s"
    and dn: "done_inv P s"
    by (simp_all add: sync_inv_def)
  from r d have hd: "h \<in> delivered s" by (auto simp: delivered_def)
  from rq r d have hD: "database s h = None" and hR: "h \<in> reach kd rootHash" and hs: "src h = Some d"
    by (auto simp: request_inv_def)
  have db: "database ?s = (database s)(h \<mapsto> d)"
    and m: "map_of (requests ?s) = (map_of (requests s))(h := None)"
    and q: "queue ?s = queue s"
    and i: "ref_index ?s = ref_index s \<union> (\<lambda>p. (p, h)) ` set (req_parents r)"
    by (simp_all add: commit_def delete_conv')
  have dd: "dom (database ?s) = insert h (dom (database s))"
    by (simp add: db)
  have dl: "delivered ?s = delivered s - {h}"
    unfolding delivered_def m by auto
  have aw: "awaited ?s = awaited s"
    unfolding awaited_def m using d r by auto
  have dm: "dom (map_of (requests ?s)) = dom (map_of (requests s)) - {h}"
    unfolding m by auto
  have par: "set (req_parents r) =
      {p \<in> delivered s. h \<in> kd p} \<union> (if h = rootHash \<and> origin \<noteq> zero_hash then {origin} else {})"
    using pa r by (simp add: parents_inv_def)
  have closed: "h \<notin> kd p" if "p \<in> dom (database s)" for p
    using st that hD unfolding store_inv_def by blast
  have "store_inv src kd ?s"
    unfolding store_inv_def
  proof (intro conjI allI impI ballI)
    fix k b assume "database ?s k = Some b"
    with st hs show "src k = Some b"
      unfolding db store_inv_def by (auto split: if_splits)
  next
    fix k assume "k \<in> dom (database ?s)"
    then have "k = h \<or> k \<in> dom (database s)" unfolding dd by simp
    with st ready have "kd k \<subseteq> dom (database s)"
      unfolding store_inv_def by blast
    then show "kd k \<subseteq> dom (database ?s)" unfolding dd by blast
  qed
  moreover have "request_inv src (reach kd rootHash) ?s"
  proof -
    have "distinct (map fst (requests ?s))"
      using rq by (simp add: request_inv_def commit_def distinct_delete)
    moreover have "dom (database ?s) \<subseteq> reach kd rootHash"
      using rq hR unfolding dd by (simp add: request_inv_def)
    moreover have "database ?s k = None \<and> k \<in> reach kd rootHash \<and> (\<forall>d'. req_data r' = Some d' \<longrightarrow> src k = Some d')"
      if "map_of (requests ?s) k = Some r'" for k r'
    proof -
      from that have "k \<noteq> h" "map_of (requests s) k = Some r'"
        unfolding m by (auto split: if_splits)
      with rq show ?thesis unfolding request_inv_def db by auto
    qed
    ultimately show ?thesis unfolding request_inv_def by blast
  qed
  moreover have "known_inv kd ?s"
    unfolding known_inv_def
  proof (intro ballI)
    fix p assume "p \<in> delivered ?s"
    then have "p \<in> delivered s" unfolding dl by simp
    with kn have "kd p \<subseteq> dom (database s) \<union> dom (map_of (requests s))"
      unfolding known_inv_def by blast
    then show "kd p \<subseteq> dom (database ?s) \<union> dom (map_of (requests ?s))"
      unfolding dd dm by blast
  qed
  moreover have "waiting_inv kd (req_parents r @ hs) ?s"
    unfolding waiting_inv_def
  proof (intro ballI)
    fix p assume "p \<in> delivered ?s"
    then have p: "p \<in> delivered s" "p \<noteq> h" by (simp_all add: dl)
    show "p \<in> set (req_parents r @ hs) \<or> \<not> kd p \<subseteq> dom (database ?s)"
    proof (cases "h \<in> kd p")
      case True
      with p par show ?thesis by auto
    next
      case False
      from wt p have "p \<in> set hs \<or> \<not> kd p \<subseteq> dom (database s)"
        by (auto simp: waiting_inv_def)
      with False show ?thesis by (auto simp: dd)
    qed
  qed
  moreover have "parents_inv kd rootHash origin ?s"
    unfolding parents_inv_def
  proof (intro allI impI)
    fix k r' assume "map_of (requests ?s) k = Some r'"
    then have k: "k \<noteq> h" "map_of (requests s) k = Some r'"
      unfolding m by (auto split: if_splits)
    with rq have "database s k = None" by (auto simp: request_inv_def)
    with ready have "k \<notin> kd h" by blast
    then have "{p \<in> delivered s - {h}. k \<in> kd p} = {p \<in> delivered s. k \<in> kd p}"
      by auto
    with pa k show "set (req_parents r') =
        {p \<in> delivered ?s. k \<in> kd p} \<union> (if k = rootHash \<and> origin \<noteq> zero_hash then {origin} else {})"
      by (simp add: parents_inv_def dl)
  qed
  moreover have "queue_inv ?s pool" using qu by (simp add: queue_inv_def q aw)
  moreover have "root_inv rootHash ?s" using ro by (auto simp: root_inv_def dm dd)
  moreover have "index_inv kd rootHash origin ?s"
  proof -
    define Pairs where "Pairs = {(p, c). p \<in> dom (database s) \<union> delivered s \<and> c \<in> kd p \<and> c \<in> dom (database s)}"
    define Orig where "Orig = (if origin \<noteq> zero_hash \<and> rootHash \<in> dom (database s) then {(origin, rootHash)} else {})"
    define I1 where "I1 = (\<lambda>p. (p, h)) ` {p \<in> delivered s. h \<in> kd p}"
    define I2 where "I2 = (\<lambda>p. (p, h)) ` (if h = rootHash \<and> origin \<noteq> zero_hash then {origin} else {})"
    have A: "{(p, c). p \<in> insert h (dom (database s)) \<union> (delivered s - {h}) \<and> c \<in> kd p \<and> c \<in> insert h (dom (database s))}
        = Pairs \<union> I1"
      unfolding Pairs_def I1_def using hd closed by auto
    have B: "(if origin \<noteq> zero_hash \<and> rootHash \<in> insert h (dom (database s)) then {(origin, rootHash)} else {})
        = Orig \<union> I2"
      unfolding Orig_def I2_def using hD by auto
    have old: "ref_index s = Pairs \<union> Orig"
      using ix unfolding index_inv_def Pairs_def Orig_def .
    have new: "(\<lambda>p. (p, h)) ` set (req_parents r) = I1 \<union> I2"
      unfolding par image_Un I1_def I2_def ..
    have "ref_index ?s = (Pairs \<union> I1) \<union> (Orig \<union> I2)"
      unfolding i old new by blast
    then show ?thesis
      unfolding index_inv_def dd dl A B .
  qed
  moreover have "done_inv P ?s" using dn hd by (auto simp: done_inv_def dl dd)
  ultimately show ?thesis by (simp add: sync_inv_def)
qed


lemma sync_inv_skip:
  assumes "sync_inv src kd rootHash origin kd (h # hs) pool P s"
    and "h \<notin> delivered s \<or> \<not> kd h \<subseteq> dom (database s)"
  shows "sync_inv src kd rootHash origin kd hs pool P s"
proof -
  from assms(1) have "waiting_inv kd (h # hs) s"
    by (simp add: sync_inv_def)
  with assms(2) have "waiting_inv kd hs s"
    unfolding waiting_inv_def by auto
  with assms(1) show ?thesis
    by (simp add: sync_inv_def)
qed

lemma cascade_inv:
  assumes "kd = kids cd src"
    and "sync_inv src kd rootHash origin kd wl pool P s"
  shows "sync_inv src kd rootHash origin kd [] pool P (cascade cd wl s)"
  using assms
proof (induction cd wl s rule: cascade.induct)
  case (1 cd s)
  then show ?case by (simp add: cascade.simps)
next
  case (2 cd h hs s)
  note kd = "2.prems"(1) and inv = "2.prems"(2)
  show ?case
  proof (cases "map_of (requests s) h")
    case None
    then have "h \<notin> delivered s" by (auto simp: delivered_def)
    with inv have "sync_inv src kd rootHash origin kd hs pool P s"
      by (intro sync_inv_skip [OF inv]) simp
    with None "2.IH"(1) kd show ?thesis
      by (simp add: cascade.simps)
  next
    case (Some r)
    show ?thesis
    proof (cases "req_data r")
      case None
      with Some have "h \<notin> delivered s" by (auto simp: delivered_def)
      with inv have "sync_inv src kd rootHash origin kd hs pool P s"
        by (intro sync_inv_skip [OF inv]) simp
      with Some None "2.IH"(2) kd show ?thesis
        by (simp add: cascade.simps)
    next
      case d: (Some d)
      from inv Some d have "src h = Some d"
        by (auto simp: sync_inv_def request_inv_def)
      then have k: "kd h = set (node_children cd d)"
        by (simp add: kd kids_def)
      show ?thesis
      proof (cases "list_all (\<lambda>c. database s c \<noteq> None) (node_children cd d)")
        case True
        with k have "kd h \<subseteq> dom (database s)"
          by (auto simp: list_all_iff)
        from commit_inv [OF inv Some d this]
        have "sync_inv src kd rootHash origin kd [] pool P (cascade cd (req_parents r @ hs) (commit h r d s))"
          by (rule "2.IH"(3) [OF Some d True kd])
        with Some d True show ?thesis
          by (simp add: cascade.simps)
      next
        case False
        with k have "\<not> kd h \<subseteq> dom (database s)"
          by (auto simp: list_all_iff)
        with inv have "sync_inv src kd rootHash origin kd hs pool P s"
          by (intro sync_inv_skip [OF inv]) simp
        with Some d False "2.IH"(4) kd show ?thesis
          by (simp add: cascade.simps)
      qed
    qed
  qed
qed

subsection \<open>Processing one result, and a batch\<close>

lemma process_one_inv:
  assumes kd: "kd = kids cd src"
    and inv: "sync_inv src kd rootHash origin kd [] pool P s"
    and h: "h \<in> set pool" and d: "src h = Some d" and hash: "node_hash cd d = h"
  shows "\<exists>s'. process_one cd h d s = Inr s' \<and>
           sync_inv src kd rootHash origin kd [] (removeAll h pool) (insert h P) s'"
proof -
  from inv have qu: "queue_inv s pool"
    by (simp add: sync_inv_def)
  with h have "h \<in> awaited s"
    by (auto simp: queue_inv_def)
  then obtain r where r: "map_of (requests s) h = Some r" "req_data r = None"
    by (auto simp: awaited_def)
  let ?s1 = "s\<lparr>requests := AList.update h (r\<lparr>req_data := Some d\<rparr>) (requests s)\<rparr>"
  let ?s2 = "fold (schedule h) (node_children cd d) ?s1"
  have p: "process_one cd h d s = Inr (cascade cd [h] ?s2)"
    using r hash by (simp add: process_one_def)
  have i1: "sync_inv src kd rootHash origin (kd(h := {})) [h] (removeAll h pool) (insert h P) ?s1"
    using inv h r(1) d by (rule arrival_inv)
  have h1: "h \<in> delivered ?s1"
    by (auto simp: delivered_def update_conv')
  have k: "kd h = set (node_children cd d)"
    using d by (simp add: kd kids_def)
  have "sync_inv src kd rootHash origin (kd(h := {} \<union> set (node_children cd d))) [h]
      (removeAll h pool) (insert h P) ?s2"
    using i1 h1 by (rule fold_schedule_inv) (simp add: k)
  moreover have "kd(h := {} \<union> set (node_children cd d)) = kd"
    unfolding k [symmetric] by simp
  ultimately have "sync_inv src kd rootHash origin kd [h] (removeAll h pool) (insert h P) ?s2"
    by simp
  with kd have "sync_inv src kd rootHash origin kd [] (removeAll h pool) (insert h P) (cascade cd [h] ?s2)"
    by (rule cascade_inv)
  with p show ?thesis by blast
qed


lemma fetch_Cons:
  "fetch src (h # hs) = Some results \<Longrightarrow>
   \<exists>b rs. src h = Some b \<and> fetch src hs = Some rs \<and> results = (h, b) # rs"
  by (auto split: option.splits)

lemma fetch_Some: "set hs \<subseteq> dom src \<Longrightarrow> \<exists>results. fetch src hs = Some results"
  by (induction hs) auto

lemma Process_loop_inv:
  assumes kd: "kd = kids cd src"
    and hashed: "\<And>h b. src h = Some b \<Longrightarrow> node_hash cd b = h"
  shows "sync_inv src kd rootHash origin kd [] pool P s \<Longrightarrow> distinct hs \<Longrightarrow> set hs \<subseteq> set pool \<Longrightarrow>
    fetch src hs = Some results \<Longrightarrow>
    \<exists>s'. Process_loop cd i results s = (None, s') \<and>
         sync_inv src kd rootHash origin kd [] (filter (\<lambda>h. h \<notin> set hs) pool) (P \<union> set hs) s'"
proof (induction hs arbitrary: results s pool P i)
  case Nil
  then show ?case by simp
next
  case (Cons h hs)
  from fetch_Cons [OF Cons.prems(4)]
  obtain b rs where b: "src h = Some b" and rs: "fetch src hs = Some rs" and res: "results = (h, b) # rs"
    by blast
  from Cons.prems(3) have hp: "h \<in> set pool" by simp
  from process_one_inv [OF kd Cons.prems(1) hp b hashed [OF b]]
  obtain s1 where s1: "process_one cd h b s = Inr s1"
    and i1: "sync_inv src kd rootHash origin kd [] (removeAll h pool) (insert h P) s1"
    by blast
  from Cons.prems(2,3) have d: "distinct hs" and sub: "set hs \<subseteq> set (removeAll h pool)"
    by auto
  from Cons.IH [OF i1 d sub rs, of "Suc i"]
  obtain s' where s': "Process_loop cd (Suc i) rs s1 = (None, s')"
    and i': "sync_inv src kd rootHash origin kd [] (filter (\<lambda>x. x \<notin> set hs) (removeAll h pool))
        (insert h P \<union> set hs) s'"
    by blast
  have "filter (\<lambda>x. x \<notin> set hs) (removeAll h pool) = filter (\<lambda>x. x \<notin> set (h # hs)) pool"
    by (induction pool) auto
  moreover have "insert h P \<union> set hs = P \<union> set (h # hs)"
    by auto
  ultimately have "sync_inv src kd rootHash origin kd [] (filter (\<lambda>x. x \<notin> set (h # hs)) pool)
      (P \<union> set (h # hs)) s'"
    using i' by simp
  moreover have "Process_loop cd i results s = (None, s')"
    using res s1 s' by simp
  ultimately show ?case by blast
qed

subsection \<open>Missing\<close>

lemma delivered_queue_update [simp]: "delivered (s\<lparr>queue := q\<rparr>) = delivered s"
  by (simp add: delivered_def)

lemma awaited_queue_update [simp]: "awaited (s\<lparr>queue := q\<rparr>) = awaited s"
  by (simp add: awaited_def)

lemma Missing_inv:
  assumes inv: "sync_inv src kd rootHash origin kd [] pool P s"
    and m: "Missing limit s = (new, s1)"
  shows "sync_inv src kd rootHash origin kd [] (pool @ new) P s1"
    and "pool @ new = [] \<Longrightarrow> queue s1 = []"
proof -
  define n where "n = (if limit = 0 then length (queue s) else min limit (length (queue s)))"
  from m have new: "new = take n (queue s)" and s1: "s1 = s\<lparr>queue := drop n (queue s)\<rparr>"
    by (simp_all add: Missing_def n_def Let_def)
  have q: "queue s = new @ queue s1"
    by (simp add: new s1)
  from inv have qu: "queue_inv s pool"
    by (simp add: sync_inv_def)
  have aw: "awaited s1 = awaited s" and dl: "delivered s1 = delivered s"
    by (simp_all add: awaited_def delivered_def s1)
  have "queue_inv s1 (pool @ new)"
    using qu unfolding queue_inv_def aw q by auto
  moreover have "store_inv src kd s1"
    using inv by (simp add: sync_inv_def store_inv_def s1)
  moreover have "request_inv src (reach kd rootHash) s1"
    using inv by (simp add: sync_inv_def request_inv_def s1)
  moreover have "known_inv kd s1"
    using inv by (simp add: sync_inv_def known_inv_def s1)
  moreover have "waiting_inv kd [] s1"
    using inv by (simp add: sync_inv_def waiting_inv_def s1)
  moreover have "parents_inv kd rootHash origin s1"
    using inv by (simp add: sync_inv_def parents_inv_def s1)
  moreover have "root_inv rootHash s1"
    using inv by (simp add: sync_inv_def root_inv_def s1)
  moreover have "index_inv kd rootHash origin s1"
  proof -
    from inv have "index_inv kd rootHash origin s" by (simp add: sync_inv_def)
    then show ?thesis unfolding index_inv_def s1 by simp
  qed
  moreover have "done_inv P s1"
    using inv by (simp add: sync_inv_def done_inv_def s1)
  ultimately show "sync_inv src kd rootHash origin kd [] (pool @ new) P s1"
    by (simp add: sync_inv_def)
  show "queue s1 = []" if "pool @ new = []"
  proof -
    from that have "take n (queue s) = []" by (simp add: new)
    then have "n = 0 \<or> queue s = []" by simp
    then have "queue s = []"
      unfolding n_def by (cases "limit = 0") (auto simp: min_def split: if_splits)
    then show ?thesis by (simp add: s1)
  qed
qed

subsection \<open>A new scheduler\<close>

lemma NewStateSync_inv:
  assumes "rootHash \<noteq> emptyRoot"
  shows "sync_inv src kd rootHash origin kd [] [] {} (NewStateSync rootHash Map.empty origin)"
proof -
  let ?s = "NewStateSync rootHash Map.empty origin"
  have dl: "delivered ?s = {}" and aw: "awaited ?s = {rootHash}"
    using assms by (auto simp: delivered_def awaited_def NewStateSync_def split: if_splits)
  have "store_inv src kd ?s"
    using assms by (simp add: store_inv_def NewStateSync_def)
  moreover have "request_inv src (reach kd rootHash) ?s"
    using assms by (auto simp: request_inv_def NewStateSync_def reach.start split: if_splits)
  moreover have "known_inv kd ?s" by (simp add: known_inv_def dl)
  moreover have "waiting_inv kd [] ?s" by (simp add: waiting_inv_def dl)
  moreover have "parents_inv kd rootHash origin ?s"
    using assms unfolding parents_inv_def dl by (auto simp: NewStateSync_def split: if_splits)
  moreover have "queue_inv ?s []"
    using assms unfolding queue_inv_def aw by (simp add: NewStateSync_def)
  moreover have "root_inv rootHash ?s"
    using assms by (simp add: root_inv_def NewStateSync_def)
  moreover have "index_inv kd rootHash origin ?s"
    using assms unfolding index_inv_def dl by (simp add: NewStateSync_def)
  moreover have "done_inv {} ?s"
    using assms unfolding done_inv_def dl by (simp add: NewStateSync_def)
  ultimately show ?thesis by (simp add: sync_inv_def)
qed


subsection \<open>What a finished synchronisation has stored\<close>

lemma completed:
  assumes inv: "sync_inv src kd rootHash origin kd [] [] P s" and q: "queue s = []"
    and rank: "\<And>h c. c \<in> kd h \<Longrightarrow> rank c < (rank h :: nat)"
  shows "requests s = []"
    and "dom (database s) = reach kd rootHash"
    and "database s = src |` reach kd rootHash"
    and "ref_index s =
           {(p, c). p \<in> reach kd rootHash \<and> c \<in> kd p}
             \<union> (if origin \<noteq> zero_hash then {(origin, rootHash)} else {})"
proof -
  from inv have st: "store_inv src kd s" and rq: "request_inv src (reach kd rootHash) s"
    and kn: "known_inv kd s" and wt: "waiting_inv kd [] s"
    and qu: "queue_inv s []" and ro: "root_inv rootHash s" and ix: "index_inv kd rootHash origin s"
    by (simp_all add: sync_inv_def)
  from qu q have aw: "awaited s = {}"
    by (simp add: queue_inv_def)
  have none: "h \<notin> delivered s" for h
  proof (induction h rule: measure_induct_rule [where f = rank])
    case (less h)
    show ?case
    proof
      assume h: "h \<in> delivered s"
      with wt obtain c where c: "c \<in> kd h" "c \<notin> dom (database s)"
        unfolding waiting_inv_def by auto
      from kn h c have "c \<in> dom (map_of (requests s))"
        unfolding known_inv_def by blast
      with aw have "c \<in> delivered s"
        by (simp add: dom_requests)
      moreover from c(1) have "rank c < rank h" by (rule rank)
      ultimately show False using less by blast
    qed
  qed
  then have "dom (map_of (requests s)) = {}"
    using aw by (auto simp: dom_requests)
  then have "map_of (requests s) = Map.empty"
    by simp
  then show req: "requests s = []"
    by (simp add: map_of_eq_empty_iff)
  from ro req have root: "rootHash \<in> dom (database s)"
    by (simp add: root_inv_def)
  have "h \<in> dom (database s)" if "h \<in> reach kd rootHash" for h
    using that
  proof (induction rule: reach.induct)
    case start
    from root show ?case .
  next
    case (step p c)
    with st show ?case unfolding store_inv_def by blast
  qed
  moreover from rq have "dom (database s) \<subseteq> reach kd rootHash"
    by (simp add: request_inv_def)
  ultimately show dom: "dom (database s) = reach kd rootHash"
    by blast
  show "database s = src |` reach kd rootHash"
  proof
    fix h
    show "database s h = (src |` reach kd rootHash) h"
    proof (cases "database s h")
      case None
      then have "h \<notin> reach kd rootHash" using dom by blast
      with None show ?thesis by simp
    next
      case (Some b)
      then have "h \<in> reach kd rootHash" using dom by blast
      moreover from st Some have "src h = Some b" unfolding store_inv_def by blast
      ultimately show ?thesis using Some by simp
    qed
  qed
  have "delivered s = {}" using none by blast
  moreover have "{(p, c). p \<in> reach kd rootHash \<and> c \<in> kd p \<and> c \<in> reach kd rootHash}
      = {(p, c). p \<in> reach kd rootHash \<and> c \<in> kd p}"
    by (auto intro: reach.step)
  ultimately show "ref_index s =
      {(p, c). p \<in> reach kd rootHash \<and> c \<in> kd p}
        \<union> (if origin \<noteq> zero_hash then {(origin, rootHash)} else {})"
    using ix root unfolding index_inv_def dom by simp
qed

subsection \<open>The drivers finish\<close>

lemma awaited_fresh:
  assumes "sync_inv src kd rootHash origin kd wl pool P s" and "h \<in> awaited s"
  shows "h \<in> reach kd rootHash" and "h \<notin> P"
proof -
  from assms(1) have rq: "request_inv src (reach kd rootHash) s" and dn: "done_inv P s"
    by (simp_all add: sync_inv_def)
  from assms(2) obtain r where r: "map_of (requests s) h = Some r" "req_data r = None"
    by (auto simp: awaited_def)
  with rq show "h \<in> reach kd rootHash"
    unfolding request_inv_def by blast
  from r rq have "database s h = None"
    unfolding request_inv_def by blast
  moreover from r have "h \<notin> delivered s"
    by (auto simp: delivered_def)
  ultimately show "h \<notin> P"
    using dn unfolding done_inv_def by auto
qed

lemma drive_completes:
  assumes kd: "kd = kids cd src"
    and hashed: "\<And>h b. src h = Some b \<Longrightarrow> node_hash cd b = h"
    and stored: "reach kd rootHash \<subseteq> dom src"
    and fin: "finite (reach kd rootHash)"
    and st: "valid_strategy st"
  shows "sync_inv src kd rootHash origin kd [] pool P s \<Longrightarrow> card (reach kd rootHash - P) < fuel \<Longrightarrow>
    \<exists>s' P'. drive cd src st fuel n s pool = Some (Synced s') \<and>
       sync_inv src kd rootHash origin kd [] [] P' s' \<and> queue s' = []"
proof (induction fuel arbitrary: n s pool P)
  case 0
  then show ?case by simp
next
  case (Suc fuel)
  obtain new s1 where m: "Missing (batch_limit st n) s = (new, s1)"
    by (cases "Missing (batch_limit st n) s")
  note inv1 = Missing_inv(1) [OF Suc.prems(1) m]
  show ?case
  proof (cases "pool @ new = []")
    case True
    from Missing_inv(2) [OF Suc.prems(1) m True] have "queue s1 = []" .
    moreover from inv1 True have "sync_inv src kd rootHash origin kd [] [] P s1" by simp
    moreover from m True have "drive cd src st (Suc fuel) n s pool = Some (Synced s1)" by simp
    ultimately show ?thesis by blast
  next
    case False
    define batch where "batch = deliver st n (pool @ new)"
    from st False have b: "batch \<noteq> []" "distinct batch" "set batch \<subseteq> set (pool @ new)"
      unfolding valid_strategy_def batch_def by blast+
    from inv1 have "queue_inv s1 (pool @ new)" by (simp add: sync_inv_def)
    then have "set (pool @ new) \<subseteq> awaited s1" by (auto simp: queue_inv_def)
    with b(3) have ba: "set batch \<subseteq> awaited s1" by blast
    with awaited_fresh [OF inv1] have fresh: "set batch \<subseteq> reach kd rootHash - P" by blast
    with stored have "set batch \<subseteq> dom src" by blast
    from fetch_Some [OF this] obtain results where f: "fetch src batch = Some results" by blast
    from Process_loop_inv [OF kd hashed inv1 b(2,3) f, of 0]
    obtain s2 where p: "Process cd results s1 = (None, s2)"
      and inv2: "sync_inv src kd rootHash origin kd [] (filter (\<lambda>h. h \<notin> set batch) (pool @ new))
          (P \<union> set batch) s2"
      unfolding Process_def by blast
    from b(1) obtain x where "x \<in> set batch" by (cases batch) auto
    with fresh have "reach kd rootHash - (P \<union> set batch) \<subset> reach kd rootHash - P" by blast
    with fin have "card (reach kd rootHash - (P \<union> set batch)) < card (reach kd rootHash - P)"
      by (intro psubset_card_mono) auto
    with Suc.prems(2) have "card (reach kd rootHash - (P \<union> set batch)) < fuel" by simp
    from Suc.IH [OF inv2 this, of "Suc n"]
    obtain s' P' where "drive cd src st fuel (Suc n) s2 (filter (\<lambda>h. h \<notin> set batch) (pool @ new)) = Some (Synced s')"
      and "sync_inv src kd rootHash origin kd [] [] P' s'" and "queue s' = []"
      by blast
    moreover from False have ne: "(pool @ new = []) = False" by simp
    have "drive cd src st (Suc fuel) n s pool
        = drive cd src st fuel (Suc n) s2 (filter (\<lambda>h. h \<notin> set batch) (pool @ new))"
      using f p unfolding batch_def
      by (simp add: Let_def m ne del: append_is_Nil_conv)
    ultimately show ?thesis by auto
  qed
qed


subsection \<open>The offline iteration\<close>

lemma reach_trans: "x \<in> reach kd c \<Longrightarrow> c \<in> reach kd h \<Longrightarrow> x \<in> reach kd h"
  by (induction rule: reach.induct) (auto intro: reach.step)

lemma reach_unfold: "reach kd h = insert h (\<Union>c \<in> kd h. reach kd c)"
proof (intro set_eqI iffI)
  fix x assume "x \<in> reach kd h"
  then show "x \<in> insert h (\<Union>c \<in> kd h. reach kd c)"
  proof (induction rule: reach.induct)
    case start
    then show ?case by simp
  next
    case (step p c)
    then show ?case
      by (auto intro: reach.start reach.step)
  qed
next
  fix x assume "x \<in> insert h (\<Union>c \<in> kd h. reach kd c)"
  then show "x \<in> reach kd h"
    by (auto intro: reach.start reach_trans reach.step [OF reach.start])
qed

lemma those_map_Some:
  "(\<And>x. x \<in> set xs \<Longrightarrow> \<exists>y. f x = Some y) \<Longrightarrow> those (map f xs) = Some (map (\<lambda>x. the (f x)) xs)"
  by (induction xs) fastforce+

text \<open>Two stores that agree on a closed set of nodes are iterated alike from any of them.\<close>

lemma NodeIterator_agree:
  assumes same: "\<And>x. x \<in> S \<Longrightarrow> st2 x = st1 x"
    and closed: "\<And>x c. x \<in> S \<Longrightarrow> c \<in> kids cd st1 x \<Longrightarrow> c \<in> S"
  shows "h \<in> S \<Longrightarrow> NodeIterator cd n st2 p h = NodeIterator cd n st1 p h"
proof (induction n arbitrary: p h)
  case 0
  then show ?case by simp
next
  case (Suc n)
  show ?case
  proof (cases "st1 h")
    case None
    with same [OF Suc.prems] show ?thesis by simp
  next
    case (Some b)
    have "map (NodeIterator cd n st2 h) (node_children cd b) = map (NodeIterator cd n st1 h) (node_children cd b)"
    proof (rule map_cong [OF refl])
      fix c assume "c \<in> set (node_children cd b)"
      with Some have "c \<in> kids cd st1 h" by (simp add: kids_def)
      with Suc.prems have "c \<in> S" by (rule closed)
      then show "NodeIterator cd n st2 h c = NodeIterator cd n st1 h c" by (rule Suc.IH)
    qed
    then have "(case those (map (NodeIterator cd n st2 h) (node_children cd b)) of
          None \<Rightarrow> None | Some subs \<Rightarrow> Some ((h, p, b) # concat subs))
        = (case those (map (NodeIterator cd n st1 h) (node_children cd b)) of
          None \<Rightarrow> None | Some subs \<Rightarrow> Some ((h, p, b) # concat subs))"
      by (simp only:)
    moreover from Some same [OF Suc.prems] have "st2 h = Some b" by simp
    ultimately show ?thesis using Some by (simp only: NodeIterator.simps option.case)
  qed
qed

text \<open>
  The iteration of a source tree visits the nodes under the root, and reports the root
  with the given parent and every other visit with the node that refers to it.
\<close>

lemma NodeIterator_visits:
  assumes kd: "kd = kids cd src"
    and stored: "\<And>x c. src x \<noteq> None \<Longrightarrow> c \<in> kd x \<Longrightarrow> src c \<noteq> None"
    and rank: "\<And>x c. c \<in> kd x \<Longrightarrow> rank c < (rank x :: nat)"
  shows "src h \<noteq> None \<Longrightarrow> rank h < n \<Longrightarrow>
    \<exists>visits. NodeIterator cd n src p h = Some visits \<and>
      (\<lambda>(x, q, b). (q, x)) ` set visits = insert (p, h) {(q, c). q \<in> reach kd h \<and> c \<in> kd q} \<and>
      fst ` set visits = reach kd h"
proof (induction n arbitrary: p h)
  case 0
  then show ?case by simp
next
  case (Suc n)
  from Suc.prems(1) obtain b where b: "src h = Some b" by blast
  let ?cs = "node_children cd b"
  let ?f = "NodeIterator cd n src h"
  have k: "kd h = set ?cs" using b by (simp add: kd kids_def)
  have ih: "\<exists>visits. ?f c = Some visits \<and>
      (\<lambda>(x, q, b). (q, x)) ` set visits = insert (h, c) {(q, c'). q \<in> reach kd c \<and> c' \<in> kd q} \<and>
      fst ` set visits = reach kd c" if "c \<in> set ?cs" for c
  proof -
    from that k have c: "c \<in> kd h" by simp
    from stored [OF Suc.prems(1) c] have "src c \<noteq> None" .
    moreover from rank [OF c] Suc.prems(2) have "rank c < n" by simp
    ultimately show ?thesis by (rule Suc.IH)
  qed
  then have "those (map ?f ?cs) = Some (map (\<lambda>c. the (?f c)) ?cs)"
    by (intro those_map_Some) blast
  with b have v: "NodeIterator cd (Suc n) src p h = Some ((h, p, b) # concat (map (\<lambda>c. the (?f c)) ?cs))"
    by simp
  have pairs: "(\<lambda>(x, q, b). (q, x)) ` set (the (?f c)) = insert (h, c) {(q, c'). q \<in> reach kd c \<and> c' \<in> kd q}"
    and nodes: "fst ` set (the (?f c)) = reach kd c" if "c \<in> kd h" for c
  proof -
    from that k have "c \<in> set ?cs" by simp
    from ih [OF this] obtain visits where "?f c = Some visits"
      and "(\<lambda>(x, q, b). (q, x)) ` set visits = insert (h, c) {(q, c'). q \<in> reach kd c \<and> c' \<in> kd q}"
      and "fst ` set visits = reach kd c"
      by blast
    then show "(\<lambda>(x, q, b). (q, x)) ` set (the (?f c)) = insert (h, c) {(q, c'). q \<in> reach kd c \<and> c' \<in> kd q}"
      and "fst ` set (the (?f c)) = reach kd c"
      by simp_all
  qed
  have "(\<lambda>(x, q, b). (q, x)) ` set ((h, p, b) # concat (map (\<lambda>c. the (?f c)) ?cs))
      = insert (p, h) (\<Union>c \<in> kd h. (\<lambda>(x, q, b). (q, x)) ` set (the (?f c)))"
    unfolding k by (simp add: image_UN)
  also have "\<dots> = insert (p, h) (\<Union>c \<in> kd h. insert (h, c) {(q, c'). q \<in> reach kd c \<and> c' \<in> kd q})"
    using pairs by simp
  also have "(\<Union>c \<in> kd h. insert (h, c) {(q, c'). q \<in> reach kd c \<and> c' \<in> kd q})
      = {(q, c). q \<in> reach kd h \<and> c \<in> kd q}"
    by (subst (2) reach_unfold) auto
  finally have 1: "(\<lambda>(x, q, b). (q, x)) ` set ((h, p, b) # concat (map (\<lambda>c. the (?f c)) ?cs))
      = insert (p, h) {(q, c). q \<in> reach kd h \<and> c \<in> kd q}" .
  have "fst ` set ((h, p, b) # concat (map (\<lambda>c. the (?f c)) ?cs))
      = insert h (\<Union>c \<in> kd h. fst ` set (the (?f c)))"
    unfolding k by (simp add: image_UN)
  also have "\<dots> = insert h (\<Union>c \<in> kd h. reach kd c)"
    using nodes by simp
  also have "\<dots> = reach kd h"
    by (rule reach_unfold [symmetric])
  finally have 2: "fst ` set ((h, p, b) # concat (map (\<lambda>c. the (?f c)) ?cs)) = reach kd h" .
  from v 1 2 show ?case by blast
qed


subsection \<open>Source trees\<close>

lemma source_tree_facts:
  assumes "source_tree cd src rootHash rank"
  shows "rootHash \<noteq> emptyRoot"
    and "src rootHash \<noteq> None"
    and "\<And>h b. src h = Some b \<Longrightarrow> node_hash cd b = h"
    and "\<And>x c. src x \<noteq> None \<Longrightarrow> c \<in> kids cd src x \<Longrightarrow> src c \<noteq> None"
    and "\<And>x c. c \<in> kids cd src x \<Longrightarrow> rank c < rank x"
    and "reach (kids cd src) rootHash \<subseteq> dom src"
    and "finite (reach (kids cd src) rootHash)"
    and "zero_hash \<notin> dom src"
proof -
  from assms have fin: "finite (dom src)" and root: "src rootHash \<noteq> None"
    and z: "src zero_hash = None" and e: "src emptyRoot = None"
    and nodes: "\<And>h b. src h = Some b \<Longrightarrow>
      node_hash cd b = h \<and> (\<forall>c \<in> set (node_children cd b). src c \<noteq> None \<and> rank c < rank h)"
    unfolding source_tree_def by blast+
  from root e show "rootHash \<noteq> emptyRoot" by auto
  from root show "src rootHash \<noteq> None" .
  show "node_hash cd b = h" if "src h = Some b" for h b
    using nodes [OF that] by simp
  show st: "src c \<noteq> None" if "src x \<noteq> None" "c \<in> kids cd src x" for x c
  proof -
    from that(1) obtain b where b: "src x = Some b" by blast
    with that(2) have "c \<in> set (node_children cd b)" by (simp add: kids_def)
    with nodes [OF b] show ?thesis by blast
  qed
  show "rank c < rank x" if "c \<in> kids cd src x" for x c
  proof (cases "src x")
    case None
    with that show ?thesis by (simp add: kids_def)
  next
    case (Some b)
    with that have "c \<in> set (node_children cd b)" by (simp add: kids_def)
    with nodes [OF Some] show ?thesis by blast
  qed
  have "src h \<noteq> None" if "h \<in> reach (kids cd src) rootHash" for h
    using that
  proof (induction rule: reach.induct)
    case start
    from root show ?case .
  next
    case (step p c)
    from st [OF step.IH step.hyps(2)] show ?case .
  qed
  then show sub: "reach (kids cd src) rootHash \<subseteq> dom src" by blast
  from fin sub show "finite (reach (kids cd src) rootHash)" by (rule rev_finite_subset)
  from z show "zero_hash \<notin> dom src" by blast
qed

text \<open>
  The index gathered from the iteration of a source tree: one entry per reference inside
  the tree, and the origin's entry.
\<close>

lemma gathered_index_tree:
  assumes pairs: "(\<lambda>(x, q, b). (q, x)) ` set visits
      = insert (zero_hash, rootHash) {(q, c). q \<in> reach kd rootHash \<and> c \<in> kd q}"
    and nz: "\<And>q c. q \<in> reach kd rootHash \<Longrightarrow> c \<in> kd q \<Longrightarrow> q \<noteq> zero_hash \<and> c \<noteq> zero_hash"
  shows "gathered_index visits rootHash origin
    = {(q, c). q \<in> reach kd rootHash \<and> c \<in> kd q}
        \<union> (if origin \<noteq> zero_hash then {(origin, rootHash)} else {})"
proof -
  let ?E = "{(q, c). q \<in> reach kd rootHash \<and> c \<in> kd q}"
  have "(\<lambda>(h, p, b). (p, h)) ` {v \<in> set visits. fst v \<noteq> zero_hash \<and> fst (snd v) \<noteq> zero_hash} = ?E"
  proof (intro set_eqI iffI)
    fix e assume "e \<in> (\<lambda>(h, p, b). (p, h)) ` {v \<in> set visits. fst v \<noteq> zero_hash \<and> fst (snd v) \<noteq> zero_hash}"
    then obtain h p b where v: "(h, p, b) \<in> set visits" "h \<noteq> zero_hash" "p \<noteq> zero_hash" "e = (p, h)"
      by auto
    from v(1) have "(p, h) \<in> (\<lambda>(x, q, b). (q, x)) ` set visits" by force
    with pairs v(3) have "(p, h) \<in> ?E" by auto
    with v(4) show "e \<in> ?E" by simp
  next
    fix e assume e: "e \<in> ?E"
    then obtain q c where qc: "e = (q, c)" "q \<in> reach kd rootHash" "c \<in> kd q" by auto
    from e pairs have "e \<in> (\<lambda>(x, q, b). (q, x)) ` set visits" by blast
    then obtain b where "(c, q, b) \<in> set visits" using qc(1) by auto
    moreover from nz [OF qc(2,3)] have "q \<noteq> zero_hash" "c \<noteq> zero_hash" by simp_all
    ultimately show "e \<in> (\<lambda>(h, p, b). (p, h)) ` {v \<in> set visits. fst v \<noteq> zero_hash \<and> fst (snd v) \<noteq> zero_hash}"
      using qc(1) by force
  qed
  then show ?thesis by (simp add: gathered_index_def)
qed

text \<open>
  Claim C1. For every source tree and every driver that answers at least one outstanding
  hash per round (whatever the limit it passes to \<open>Missing\<close>, whichever outstanding hashes
  it answers and in whichever order, the others being answered later), the loop of
  \<open>Missing\<close> and \<open>Process\<close> ends, within one round per source node and one more, with no
  failure and with nothing requested or queued any more. The destination, empty at the
  start, then holds exactly the nodes of the tree, each with the bytes of the source, so
  that its offline iteration visits the same nodes with the same parents and the same bytes
  as the iteration of the source: every balance, nonce and code is read from these bytes.
  Its parent-reference index is exactly the index gathered from that iteration, with the
  entry (origin, root) when the origin is not the zero hash.
\<close>

theorem state_sync_reconstructs:
  assumes tree: "source_tree cd src rootHash rank" and st: "valid_strategy st"
  shows "\<exists>s visits.
    drive cd src st (Suc (card (dom src))) 0 (NewStateSync rootHash Map.empty origin) [] = Some (Synced s) \<and>
    requests s = [] \<and> queue s = [] \<and>
    NodeIterator cd (Suc (rank rootHash)) src zero_hash rootHash = Some visits \<and>
    NodeIterator cd (Suc (rank rootHash)) (database s) zero_hash rootHash = Some visits \<and>
    database s = src |` (fst ` set visits) \<and>
    dom (database s) = fst ` set visits \<and>
    ref_index s = gathered_index visits rootHash origin"
proof -
  define kd where "kd = kids cd src"
  note t = source_tree_facts [OF tree, folded kd_def]
  let ?R = "reach kd rootHash"
  have init: "sync_inv src kd rootHash origin kd [] [] {} (NewStateSync rootHash Map.empty origin)"
    using t(1) by (rule NewStateSync_inv)
  from tree have "finite (dom src)" by (simp add: source_tree_def)
  with t(6) have "card ?R \<le> card (dom src)" by (intro card_mono)
  then have "card (?R - {}) < Suc (card (dom src))" by simp
  have "\<exists>s P. drive cd src st (Suc (card (dom src))) 0 (NewStateSync rootHash Map.empty origin) []
        = Some (Synced s) \<and>
      sync_inv src kd rootHash origin kd [] [] P s \<and> queue s = []"
  proof (rule drive_completes [where P = "{}"])
    show "kd = kids cd src" by (rule kd_def)
    show "node_hash cd b = h" if "src h = Some b" for h b
      using that by (rule t(3))
    show "?R \<subseteq> dom src" by (rule t(6))
    show "finite ?R" by (rule t(7))
    show "valid_strategy st" by (rule st)
    show "sync_inv src kd rootHash origin kd [] [] {} (NewStateSync rootHash Map.empty origin)"
      by (rule init)
    show "card (?R - {}) < Suc (card (dom src))" by fact
  qed
  then obtain s P where d: "drive cd src st (Suc (card (dom src))) 0 (NewStateSync rootHash Map.empty origin) []
      = Some (Synced s)"
    and inv: "sync_inv src kd rootHash origin kd [] [] P s" and q: "queue s = []"
    by blast
  have rank: "rank c < rank h" if "c \<in> kd h" for h c
    using that by (rule t(5))
  have c: "requests s = []" "dom (database s) = ?R" "database s = src |` ?R"
    "ref_index s = {(p, c). p \<in> ?R \<and> c \<in> kd p} \<union> (if origin \<noteq> zero_hash then {(origin, rootHash)} else {})"
    by (rule completed [where rank = rank, OF inv q], rule rank, assumption)+
  have "\<exists>visits. NodeIterator cd (Suc (rank rootHash)) src zero_hash rootHash = Some visits \<and>
      (\<lambda>(x, q, b). (q, x)) ` set visits
        = insert (zero_hash, rootHash) {(q, c). q \<in> ?R \<and> c \<in> kd q} \<and>
      fst ` set visits = ?R"
  proof (rule NodeIterator_visits [where rank = rank])
    show "kd = kids cd src" by (rule kd_def)
    show "src c \<noteq> None" if "src x \<noteq> None" "c \<in> kd x" for x c
      using that by (rule t(4))
    show "rank c < rank x" if "c \<in> kd x" for x c
      using that by (rule t(5))
    show "src rootHash \<noteq> None" by (rule t(2))
    show "rank rootHash < Suc (rank rootHash)" by simp
  qed
  then obtain visits where v: "NodeIterator cd (Suc (rank rootHash)) src zero_hash rootHash = Some visits"
    and pairs: "(\<lambda>(x, q, b). (q, x)) ` set visits
      = insert (zero_hash, rootHash) {(q, c). q \<in> ?R \<and> c \<in> kd q}"
    and nodes: "fst ` set visits = ?R"
    by auto
  have "NodeIterator cd (Suc (rank rootHash)) (database s) zero_hash rootHash
      = NodeIterator cd (Suc (rank rootHash)) src zero_hash rootHash"
  proof (rule NodeIterator_agree [where S = ?R])
    show "database s x = src x" if "x \<in> ?R" for x
      using that by (simp add: c(3))
    show "c \<in> ?R" if "x \<in> ?R" "c \<in> kids cd src x" for x c
      using that by (auto intro: reach.step simp: kd_def)
    show "rootHash \<in> ?R" by (rule reach.start)
  qed
  with v have v': "NodeIterator cd (Suc (rank rootHash)) (database s) zero_hash rootHash = Some visits"
    by simp
  have nz: "q \<noteq> zero_hash \<and> c \<noteq> zero_hash" if "q \<in> ?R" "c \<in> kd q" for q c
  proof -
    from that(1) t(6) have "src q \<noteq> None" by blast
    moreover from t(4) [OF this that(2)] have "src c \<noteq> None" .
    ultimately show ?thesis using t(8) by auto
  qed
  from gathered_index_tree [OF pairs nz, of origin] c(4)
  have "ref_index s = gathered_index visits rootHash origin" by simp
  moreover from c(3) nodes have "database s = src |` (fst ` set visits)" by simp
  ultimately show ?thesis
    using d c(1) q v v' c(2) nodes by blast
qed


lemma sample_source_tree: "source_tree sample_codec sample_src [1] sample_rank"
proof -
  have z: "zero_hash \<noteq> [x]" for x :: byte
  proof
    assume "zero_hash = [x]"
    then have "length zero_hash = length [x]" by simp
    then show False by (simp add: zero_hash_def)
  qed
  have e: "emptyRoot \<noteq> [x]" for x :: byte
    by (simp add: emptyRoot_def)
  have "finite (dom sample_src)"
    by (simp add: sample_src_def)
  moreover have "sample_src [1] \<noteq> None"
    by (simp add: sample_src_def)
  moreover have "sample_src zero_hash = None"
    using z by (simp add: sample_src_def)
  moreover have "sample_src emptyRoot = None"
    using e by (simp add: sample_src_def)
  moreover have "node_hash sample_codec b = h \<and>
      (\<forall>c \<in> set (node_children sample_codec b). sample_src c \<noteq> None \<and> sample_rank c < sample_rank h)"
    if "sample_src h = Some b" for h b
    using that by (auto simp: sample_src_def sample_codec_def sample_rank_def split: if_splits)
  ultimately show ?thesis
    unfolding source_tree_def by blast
qed

lemma last_one_first_valid: "valid_strategy last_one_first"
  by (simp add: valid_strategy_def last_one_first_def)


lemma sample_visits:
  "NodeIterator sample_codec 10 sample_src zero_hash [1] =
     Some [([1], zero_hash, [2, 3, 1]), ([2], [1], [4, 2]), ([4], [2], [4]),
           ([3], [1], [4, 5, 3]), ([4], [3], [4]), ([5], [3], [5])]"
proof -
  have ten: "(10::nat) = Suc (Suc (Suc (Suc (Suc (Suc (Suc (Suc (Suc (Suc 0)))))))))"
    by simp
  show ?thesis
    unfolding ten by (simp add: sample_codec_def sample_src_def)
qed

lemma gathered_index_list:
  "gathered_index visits rootHash origin =
     set (map (\<lambda>(h, p, b). (p, h)) (filter (\<lambda>v. fst v \<noteq> zero_hash \<and> fst (snd v) \<noteq> zero_hash) visits))
       \<union> (if origin \<noteq> zero_hash then {(origin, rootHash)} else {})"
  by (simp add: gathered_index_def)

lemma sample_index:
  "gathered_index [([1], zero_hash, [2, 3, 1]), ([2], [1], [4, 2]), ([4], [2], [4]),
           ([3], [1], [4, 5, 3]), ([4], [3], [4]), ([5], [3], [5])] [1] [9]
   = {([9], [1]), ([1], [2]), ([1], [3]), ([2], [4]), ([3], [4]), ([3], [5])}"
proof -
  have z: "zero_hash \<noteq> [x]" "[x] \<noteq> zero_hash" for x :: byte
    by (auto simp: zero_hash_def dest: arg_cong [where f = length])
  show ?thesis
    unfolding gathered_index_list using z by auto
qed

theorem state_sync_reconstructs_witness:
  "source_tree sample_codec sample_src [1] sample_rank \<and> valid_strategy last_one_first \<and>
   (\<exists>s. drive sample_codec sample_src last_one_first 6 0 (NewStateSync [1] Map.empty [9]) []
          = Some (Synced s) \<and>
        requests s = [] \<and> queue s = [] \<and>
        NodeIterator sample_codec 10 (database s) zero_hash [1] =
          Some [([1], zero_hash, [2, 3, 1]), ([2], [1], [4, 2]), ([4], [2], [4]),
                ([3], [1], [4, 5, 3]), ([4], [3], [4]), ([5], [3], [5])] \<and>
        dom (database s) = {[1], [2], [3], [4], [5]} \<and>
        ref_index s = {([9], [1]), ([1], [2]), ([1], [3]), ([2], [4]), ([3], [4]), ([3], [5])})"
proof -
  have c: "Suc (card (dom sample_src)) = 6"
    by (simp add: sample_src_def)
  have r: "Suc (sample_rank [1]) = 10"
    by (simp add: sample_rank_def)
  from state_sync_reconstructs [OF sample_source_tree last_one_first_valid, of "[9]"]
  obtain s visits where
    "drive sample_codec sample_src last_one_first 6 0 (NewStateSync [1] Map.empty [9]) [] = Some (Synced s)"
    and "requests s = []" and "queue s = []"
    and v: "NodeIterator sample_codec 10 sample_src zero_hash [1] = Some visits"
    and "NodeIterator sample_codec 10 (database s) zero_hash [1] = Some visits"
    and "database s = sample_src |` (fst ` set visits)"
    and "dom (database s) = fst ` set visits"
    and "ref_index s = gathered_index visits [1] [9]"
    unfolding c r by blast
  moreover from v have "visits = [([1], zero_hash, [2, 3, 1]), ([2], [1], [4, 2]), ([4], [2], [4]),
      ([3], [1], [4, 5, 3]), ([4], [3], [4]), ([5], [3], [5])]"
    by (simp add: sample_visits)
  ultimately show ?thesis
    using sample_source_tree last_one_first_valid sample_index by auto
qed

end
